theory Spec2Isabelle
  imports Main "HOL-Library.AList"
begin

section \<open>Data model of \<open>crossword.py\<close>\<close>

text \<open>
  Python exceptions that the modelled code can raise. A function that can raise returns
  \<open>error + 'a\<close>, with \<open>Inl\<close> for the exception.
\<close>

datatype error = KeyError | IndexError | TypeError | ValueError

text \<open>
  \<open>Variable.ACROSS\<close> and \<open>Variable.DOWN\<close> are string constants; a direction is any
  string, as in the source.
\<close>

definition ACROSS :: string where
  "ACROSS = ''across''"

definition DOWN :: string where
  "DOWN = ''down''"

text \<open>
  Class \<open>Variable\<close>. The fields \<open>i\<close>, \<open>j\<close> and \<open>length\<close> of the source are named
  \<open>var_i\<close>, \<open>var_j\<close> and \<open>var_length\<close> (\<open>length\<close> is the list length of HOL). Equality of
  records is equality of the four fields, which is what \<open>__eq__\<close> and \<open>__hash__\<close> use.
  Rows, columns and lengths are naturals: they come from \<open>range\<close> and from counting cells.
\<close>

record Variable =
  var_i :: nat
  var_j :: nat
  direction :: string
  var_length :: nat

type_synonym cell = "nat \<times> nat"

text \<open>
  The attribute \<open>cells\<close>, computed in \<open>Variable.__init__\<close> by the loop
  \<open>for k in range(self.length): self.cells.append(...)\<close>: the loop function takes the
  values of \<open>k\<close> still to visit and the list built so far.
\<close>

fun cells_loop :: "Variable \<Rightarrow> nat list \<Rightarrow> cell list \<Rightarrow> cell list" where
  "cells_loop v [] acc = acc"
| "cells_loop v (k # ks) acc =
     cells_loop v ks
       (acc @ [(var_i v + (if direction v = DOWN then k else 0),
                var_j v + (if direction v = ACROSS then k else 0))])"

definition cells :: "Variable \<Rightarrow> cell list" where
  "cells v = cells_loop v [0..<var_length v] []"

section \<open>Cells of a slot\<close>

lemma ACROSS_neq_DOWN: "ACROSS \<noteq> DOWN"
  by (simp add: ACROSS_def DOWN_def)

lemma cells_loop_map:
  "cells_loop v ks acc =
     acc @ map (\<lambda>k. (var_i v + (if direction v = DOWN then k else 0),
                      var_j v + (if direction v = ACROSS then k else 0))) ks"
  by (induction ks arbitrary: acc) simp_all

lemma cells_map:
  "cells v = map (\<lambda>k. (var_i v + (if direction v = DOWN then k else 0),
                        var_j v + (if direction v = ACROSS then k else 0))) [0..<var_length v]"
  by (simp add: cells_def cells_loop_map)

lemma length_cells: "length (cells v) = var_length v"
  by (simp add: cells_map)

lemma nth_cells:
  "k < var_length v \<Longrightarrow>
     cells v ! k = (var_i v + (if direction v = DOWN then k else 0),
                    var_j v + (if direction v = ACROSS then k else 0))"
  by (simp add: cells_map)

lemma distinct_cells_across: "direction v = ACROSS \<Longrightarrow> distinct (cells v)"
  by (simp add: cells_map distinct_map inj_on_def)

lemma distinct_cells_down: "direction v = DOWN \<Longrightarrow> distinct (cells v)"
  by (simp add: cells_map distinct_map inj_on_def)

text \<open>
  C8. A slot built with start row \<open>i\<close>, start column \<open>j\<close>, a direction and length \<open>L\<close>
  has exactly \<open>L\<close> cells, cell \<open>k\<close> is \<open>(i + k\<cdot>[direction = DOWN], j + k\<cdot>[direction = ACROSS])\<close>,
  and so consecutive cells of a Down slot differ by one row (same column) and those of
  an Across slot by one column (same row).
\<close>

theorem cells_geometry:
  "length (cells \<lparr>var_i = i, var_j = j, direction = d, var_length = L\<rparr>) = L \<and>
   (\<forall>k<L. cells \<lparr>var_i = i, var_j = j, direction = d, var_length = L\<rparr> ! k =
      (i + (if d = DOWN then k else 0), j + (if d = ACROSS then k else 0))) \<and>
   (d = DOWN \<longrightarrow> (\<forall>k. Suc k < L \<longrightarrow>
      cells \<lparr>var_i = i, var_j = j, direction = d, var_length = L\<rparr> ! Suc k =
      (Suc (fst (cells \<lparr>var_i = i, var_j = j, direction = d, var_length = L\<rparr> ! k)),
       snd (cells \<lparr>var_i = i, var_j = j, direction = d, var_length = L\<rparr> ! k)))) \<and>
   (d = ACROSS \<longrightarrow> (\<forall>k. Suc k < L \<longrightarrow>
      cells \<lparr>var_i = i, var_j = j, direction = d, var_length = L\<rparr> ! Suc k =
      (fst (cells \<lparr>var_i = i, var_j = j, direction = d, var_length = L\<rparr> ! k),
       Suc (snd (cells \<lparr>var_i = i, var_j = j, direction = d, var_length = L\<rparr> ! k)))))"
proof -
  let ?v = "\<lparr>var_i = i, var_j = j, direction = d, var_length = L\<rparr>"
  have len: "length (cells ?v) = L"
    by (simp add: length_cells)
  have nth: "\<And>k. k < L \<Longrightarrow>
      cells ?v ! k = (i + (if d = DOWN then k else 0), j + (if d = ACROSS then k else 0))"
    by (simp add: nth_cells)
  have down: "d = DOWN \<longrightarrow> (\<forall>k. Suc k < L \<longrightarrow>
      cells ?v ! Suc k = (Suc (fst (cells ?v ! k)), snd (cells ?v ! k)))"
  proof (intro impI allI)
    fix k assume d: "d = DOWN" and k: "Suc k < L"
    from k have k': "k < L" by simp
    from nth [OF k] nth [OF k'] d ACROSS_neq_DOWN show
      "cells ?v ! Suc k = (Suc (fst (cells ?v ! k)), snd (cells ?v ! k))"
      by simp
  qed
  have across: "d = ACROSS \<longrightarrow> (\<forall>k. Suc k < L \<longrightarrow>
      cells ?v ! Suc k = (fst (cells ?v ! k), Suc (snd (cells ?v ! k))))"
  proof (intro impI allI)
    fix k assume d: "d = ACROSS" and k: "Suc k < L"
    from k have k': "k < L" by simp
    from nth [OF k] nth [OF k'] d ACROSS_neq_DOWN show
      "cells ?v ! Suc k = (fst (cells ?v ! k), Suc (snd (cells ?v ! k)))"
      by simp
  qed
  from len nth down across show ?thesis
    by blast
qed

theorem cells_geometry_witness:
  "cells \<lparr>var_i = 2, var_j = 1, direction = DOWN, var_length = 3\<rparr> = [(2, 1), (3, 1), (4, 1)] \<and>
   cells \<lparr>var_i = 2, var_j = 1, direction = ACROSS, var_length = 3\<rparr> = [(2, 1), (2, 2), (2, 3)] \<and>
   length (cells \<lparr>var_i = 2, var_j = 1, direction = DOWN, var_length = 3\<rparr>) = 3 \<and>
   cells \<lparr>var_i = 2, var_j = 1, direction = DOWN, var_length = 3\<rparr> ! Suc 1 =
     (Suc (fst (cells \<lparr>var_i = 2, var_j = 1, direction = DOWN, var_length = 3\<rparr> ! 1)),
      snd (cells \<lparr>var_i = 2, var_j = 1, direction = DOWN, var_length = 3\<rparr> ! 1))"
proof -
  have a: "cells \<lparr>var_i = 2, var_j = 1, direction = DOWN, var_length = 3\<rparr> = [(2, 1), (3, 1), (4, 1)]"
    by (simp add: cells_def upt_conv_Cons ACROSS_def DOWN_def)
  have b: "cells \<lparr>var_i = 2, var_j = 1, direction = ACROSS, var_length = 3\<rparr> = [(2, 1), (2, 2), (2, 3)]"
    by (simp add: cells_def upt_conv_Cons ACROSS_def DOWN_def)
  have c: "Suc 1 < (3::nat)" by simp
  from cells_geometry [of 2 1 DOWN 3] c
  have "length (cells \<lparr>var_i = 2, var_j = 1, direction = DOWN, var_length = 3\<rparr>) = 3 \<and>
    cells \<lparr>var_i = 2, var_j = 1, direction = DOWN, var_length = 3\<rparr> ! Suc 1 =
     (Suc (fst (cells \<lparr>var_i = 2, var_j = 1, direction = DOWN, var_length = 3\<rparr> ! 1)),
      snd (cells \<lparr>var_i = 2, var_j = 1, direction = DOWN, var_length = 3\<rparr> ! 1))"
    by blast
  with a b show ?thesis by blast
qed

section \<open>Class \<open>Crossword\<close>\<close>

text \<open>
  A Python \<open>set\<close> is modelled as a list that enumerates it: the list order stands for the
  iteration order, which Python leaves unspecified, and every theorem below holds for every
  such order. The dict \<open>overlaps\<close> is a map from ordered pairs of slots: a missing key is
  \<open>None\<close> (Python raises \<open>KeyError\<close>), the value \<open>None\<close> of the source is \<open>Some None\<close>, an
  index pair is \<open>Some (Some (p, q))\<close>. The field \<open>structure\<close> is named \<open>structure'\<close>.
\<close>

record Crossword =
  height :: nat
  width :: nat
  structure' :: "bool list list"
  words :: "string list"
  variables :: "Variable list"
  overlaps :: "Variable \<times> Variable \<rightharpoonup> (nat \<times> nat) option"

text \<open>
  \<open>Crossword.__init__\<close>, from the lines of the structure file and the (upper-cased) lines
  of the words file. \<open>max(len(line) for line in contents)\<close> raises \<open>ValueError\<close> on an empty
  file.
\<close>

definition max_len :: "string list \<Rightarrow> error + nat" where
  "max_len contents =
     (if contents = [] then Inl ValueError else Inr (Max (set (map length contents))))"

definition build_structure :: "string list \<Rightarrow> nat \<Rightarrow> nat \<Rightarrow> bool list list" where
  "build_structure contents h w =
     map (\<lambda>i. map (\<lambda>j. if j \<ge> length (contents ! i) then False
                          else if contents ! i ! j = CHR ''_'' then True
                          else False) [0..<w]) [0..<h]"

text \<open>
  The inner loop that measures a run: \<open>for k in range(...): if filled: length += 1 else: break\<close>.
\<close>

fun run_loop :: "(nat \<Rightarrow> bool) \<Rightarrow> nat list \<Rightarrow> nat \<Rightarrow> nat" where
  "run_loop filled [] len = len"
| "run_loop filled (k # ks) len = (if filled k then run_loop filled ks (len + 1) else len)"

text \<open>\<open>set.add\<close>: no effect when the element is already there.\<close>

definition set_add :: "'a \<Rightarrow> 'a list \<Rightarrow> 'a list" where
  "set_add x xs = (if x \<in> set xs then xs else xs @ [x])"

definition scan_down :: "bool list list \<Rightarrow> nat \<Rightarrow> nat \<Rightarrow> nat \<Rightarrow> Variable list \<Rightarrow> Variable list" where
  "scan_down st h i j vars =
     (let starts_word = (st ! i ! j \<and> (i = 0 \<or> \<not> st ! (i - 1) ! j)) in
      if starts_word then
        (let len = run_loop (\<lambda>k. st ! k ! j) [i + 1..<h] 1 in
         if len > 1
         then set_add \<lparr>var_i = i, var_j = j, direction = DOWN, var_length = len\<rparr> vars
         else vars)
      else vars)"

definition scan_across :: "bool list list \<Rightarrow> nat \<Rightarrow> nat \<Rightarrow> nat \<Rightarrow> Variable list \<Rightarrow> Variable list" where
  "scan_across st w i j vars =
     (let starts_word = (st ! i ! j \<and> (j = 0 \<or> \<not> st ! i ! (j - 1))) in
      if starts_word then
        (let len = run_loop (\<lambda>k. st ! i ! k) [j + 1..<w] 1 in
         if len > 1
         then set_add \<lparr>var_i = i, var_j = j, direction = ACROSS, var_length = len\<rparr> vars
         else vars)
      else vars)"

definition scan_variables :: "bool list list \<Rightarrow> nat \<Rightarrow> nat \<Rightarrow> Variable list" where
  "scan_variables st h w =
     fold (\<lambda>i vars. fold (\<lambda>j vars. scan_across st w i j (scan_down st h i j vars)) [0..<w] vars)
       [0..<h] []"

text \<open>
  The overlap table. \<open>set(cells1).intersection(cells2)\<close> is enumerated by \<open>intersection\<close>;
  \<open>intersection.pop()\<close> returns an arbitrary element, so the builder takes a parameter
  \<open>choice\<close>: for the pair \<open>(v1, v2)\<close> the element popped is the one at position
  \<open>choice v1 v2 mod n\<close> of the \<open>n\<close> shared cells. Every choice function is allowed.
  \<open>list.index\<close> raises \<open>ValueError\<close> when the element is absent.
\<close>

definition intersection :: "cell list \<Rightarrow> cell list \<Rightarrow> cell list" where
  "intersection cells1 cells2 = remdups (filter (\<lambda>c. c \<in> set cells2) cells1)"

definition pop :: "nat \<Rightarrow> cell list \<Rightarrow> cell" where
  "pop n s = s ! (n mod length s)"

fun index :: "'a list \<Rightarrow> 'a \<Rightarrow> error + nat" where
  "index [] x = Inl ValueError"
| "index (y # ys) x =
     (if y = x then Inr 0
      else case index ys x of Inl e \<Rightarrow> Inl e | Inr n \<Rightarrow> Inr (Suc n))"

definition overlap :: "(Variable \<Rightarrow> Variable \<Rightarrow> nat) \<Rightarrow> Variable \<Rightarrow> Variable \<Rightarrow> error + (nat \<times> nat) option" where
  "overlap choice v1 v2 =
     (let cells1 = cells v1; cells2 = cells v2;
          inter = intersection cells1 cells2 in
      if inter = [] then Inr None
      else
        (let c = pop (choice v1 v2) inter in
         case index cells1 c of Inl e \<Rightarrow> Inl e
         | Inr p \<Rightarrow> (case index cells2 c of Inl e \<Rightarrow> Inl e | Inr q \<Rightarrow> Inr (Some (p, q)))))"

fun overlaps_inner ::
  "(Variable \<Rightarrow> Variable \<Rightarrow> nat) \<Rightarrow> Variable \<Rightarrow> Variable list \<Rightarrow>
   (Variable \<times> Variable \<rightharpoonup> (nat \<times> nat) option) \<Rightarrow>
   error + (Variable \<times> Variable \<rightharpoonup> (nat \<times> nat) option)" where
  "overlaps_inner choice v1 [] m = Inr m"
| "overlaps_inner choice v1 (v2 # vs) m =
     (if v1 = v2 then overlaps_inner choice v1 vs m
      else case overlap choice v1 v2 of Inl e \<Rightarrow> Inl e
           | Inr ov \<Rightarrow> overlaps_inner choice v1 vs (m((v1, v2) \<mapsto> ov)))"

fun overlaps_outer ::
  "(Variable \<Rightarrow> Variable \<Rightarrow> nat) \<Rightarrow> Variable list \<Rightarrow> Variable list \<Rightarrow>
   (Variable \<times> Variable \<rightharpoonup> (nat \<times> nat) option) \<Rightarrow>
   error + (Variable \<times> Variable \<rightharpoonup> (nat \<times> nat) option)" where
  "overlaps_outer choice [] vars m = Inr m"
| "overlaps_outer choice (v1 # vs) vars m =
     (case overlaps_inner choice v1 vars m of Inl e \<Rightarrow> Inl e
      | Inr m' \<Rightarrow> overlaps_outer choice vs vars m')"

definition compute_overlaps ::
  "(Variable \<Rightarrow> Variable \<Rightarrow> nat) \<Rightarrow> Variable list \<Rightarrow>
   error + (Variable \<times> Variable \<rightharpoonup> (nat \<times> nat) option)" where
  "compute_overlaps choice vars = overlaps_outer choice vars vars Map.empty"

definition Crossword_init ::
  "string list \<Rightarrow> string list \<Rightarrow> (Variable \<Rightarrow> Variable \<Rightarrow> nat) \<Rightarrow> error + Crossword" where
  "Crossword_init contents word_lines choice =
     (let h = length contents in
      case max_len contents of Inl e \<Rightarrow> Inl e
      | Inr w \<Rightarrow>
          (let st = build_structure contents h w;
               vars = scan_variables st h w in
           case compute_overlaps choice vars of Inl e \<Rightarrow> Inl e
           | Inr ov \<Rightarrow>
               Inr \<lparr>height = h, width = w, structure' = st, words = remdups word_lines,
                    variables = vars, overlaps = ov\<rparr>))"


section \<open>Geometry of the slots found by the scan\<close>

lemma run_loop_takeWhile: "run_loop filled ks len = len + length (takeWhile filled ks)"
  by (induction ks arbitrary: len) simp_all

lemma takeWhile_upt_filled:
  "a \<le> k \<Longrightarrow> k < a + length (takeWhile filled [a..<b]) \<Longrightarrow> filled k"
proof (induction "b - a" arbitrary: a b)
  case 0
  then show ?case by simp
next
  case (Suc n)
  then have ab: "a < b" by simp
  then have upt: "[a..<b] = a # [Suc a..<b]" by (simp add: upt_conv_Cons)
  show ?case
  proof (cases "filled a")
    case False
    with Suc.prems upt show ?thesis by simp
  next
    case True
    show ?thesis
    proof (cases "k = a")
      case True
      with \<open>filled a\<close> show ?thesis by simp
    next
      case False
      with Suc.prems have "Suc a \<le> k" by simp
      moreover from Suc.prems upt \<open>filled a\<close>
      have "k < Suc a + length (takeWhile filled [Suc a..<b])" by simp
      moreover from Suc.hyps have "n = b - Suc a" by simp
      ultimately show ?thesis using Suc.hyps(1) by blast
    qed
  qed
qed

definition good_down :: "bool list list \<Rightarrow> nat \<Rightarrow> Variable \<Rightarrow> bool" where
  "good_down st h v \<longleftrightarrow>
     direction v = DOWN \<and> st ! var_i v ! var_j v \<and>
     (var_i v = 0 \<or> \<not> st ! (var_i v - 1) ! var_j v) \<and>
     var_length v = run_loop (\<lambda>k. st ! k ! var_j v) [var_i v + 1..<h] 1 \<and>
     1 < var_length v"

definition good_across :: "bool list list \<Rightarrow> nat \<Rightarrow> Variable \<Rightarrow> bool" where
  "good_across st w v \<longleftrightarrow>
     direction v = ACROSS \<and> st ! var_i v ! var_j v \<and>
     (var_j v = 0 \<or> \<not> st ! var_i v ! (var_j v - 1)) \<and>
     var_length v = run_loop (\<lambda>k. st ! var_i v ! k) [var_j v + 1..<w] 1 \<and>
     1 < var_length v"

lemma set_set_add: "set (set_add x xs) = insert x (set xs)"
  by (auto simp: set_add_def)

lemma distinct_set_add: "distinct xs \<Longrightarrow> distinct (set_add x xs)"
  by (simp add: set_add_def)

lemma scan_down_good:
  assumes "\<forall>v\<in>set vars. good_down st h v \<or> good_across st w v"
  shows "\<forall>v\<in>set (scan_down st h i j vars). good_down st h v \<or> good_across st w v"
  using assms by (auto simp: scan_down_def Let_def set_set_add good_down_def)

lemma scan_across_good:
  assumes "\<forall>v\<in>set vars. good_down st h v \<or> good_across st w v"
  shows "\<forall>v\<in>set (scan_across st w i j vars). good_down st h v \<or> good_across st w v"
  using assms by (auto simp: scan_across_def Let_def set_set_add good_across_def)

lemma scan_row_good:
  assumes "\<forall>v\<in>set vars. good_down st h v \<or> good_across st w v"
  shows "\<forall>v\<in>set (fold (\<lambda>j vars. scan_across st w i j (scan_down st h i j vars)) js vars).
           good_down st h v \<or> good_across st w v"
  using assms
proof (induction js arbitrary: vars)
  case Nil
  then show ?case by simp
next
  case (Cons j js)
  from Cons.prems have "\<forall>v\<in>set (scan_across st w i j (scan_down st h i j vars)).
      good_down st h v \<or> good_across st w v"
    by (intro scan_across_good scan_down_good)
  from Cons.IH [OF this] show ?case by simp
qed

lemma scan_rows_good:
  assumes "\<forall>v\<in>set vars. good_down st h v \<or> good_across st w v"
  shows "\<forall>v\<in>set (fold (\<lambda>i vars. fold (\<lambda>j vars. scan_across st w i j (scan_down st h i j vars)) js vars) is vars).
           good_down st h v \<or> good_across st w v"
  using assms
proof (induction "is" arbitrary: vars)
  case Nil
  then show ?case by simp
next
  case (Cons i "is")
  from scan_row_good [OF Cons.prems]
  have "\<forall>v\<in>set (fold (\<lambda>j vars. scan_across st w i j (scan_down st h i j vars)) js vars).
      good_down st h v \<or> good_across st w v" .
  from Cons.IH [OF this] show ?case by simp
qed

lemma scan_variables_good:
  "v \<in> set (scan_variables st h w) \<Longrightarrow> good_down st h v \<or> good_across st w v"
  using scan_rows_good [of "[]" st h w "[0..<w]" "[0..<h]"]
  by (simp add: scan_variables_def)

lemma scan_down_distinct: "distinct vars \<Longrightarrow> distinct (scan_down st h i j vars)"
  by (simp add: scan_down_def Let_def distinct_set_add)

lemma scan_across_distinct: "distinct vars \<Longrightarrow> distinct (scan_across st w i j vars)"
  by (simp add: scan_across_def Let_def distinct_set_add)

lemma scan_row_distinct:
  "distinct vars \<Longrightarrow>
   distinct (fold (\<lambda>j vars. scan_across st w i j (scan_down st h i j vars)) js vars)"
  by (induction js arbitrary: vars) (simp_all add: scan_down_distinct scan_across_distinct)

lemma scan_rows_distinct:
  "distinct vars \<Longrightarrow>
   distinct (fold (\<lambda>i vars. fold (\<lambda>j vars. scan_across st w i j (scan_down st h i j vars)) js vars) is vars)"
  by (induction "is" arbitrary: vars) (simp_all add: scan_row_distinct)

lemma distinct_scan_variables: "distinct (scan_variables st h w)"
  by (simp add: scan_variables_def scan_rows_distinct)

lemma set_cells:
  "set (cells v) = {(var_i v + (if direction v = DOWN then k else 0),
                     var_j v + (if direction v = ACROSS then k else 0)) | k. k < var_length v}"
  by (auto simp: cells_map)

lemma good_down_filled:
  assumes "good_down st h v" "var_i v \<le> r" "r < var_i v + var_length v"
  shows "st ! r ! var_j v"
proof (cases "r = var_i v")
  case True
  with assms show ?thesis by (simp add: good_down_def)
next
  case False
  with assms have "var_i v + 1 \<le> r" by simp
  moreover from assms
  have "r < var_i v + 1 + length (takeWhile (\<lambda>k. st ! k ! var_j v) [var_i v + 1..<h])"
    by (simp add: good_down_def run_loop_takeWhile)
  ultimately show ?thesis
    by (rule takeWhile_upt_filled)
qed

lemma good_across_filled:
  assumes "good_across st w v" "var_j v \<le> c" "c < var_j v + var_length v"
  shows "st ! var_i v ! c"
proof (cases "c = var_j v")
  case True
  with assms show ?thesis by (simp add: good_across_def)
next
  case False
  with assms have "var_j v + 1 \<le> c" by simp
  moreover from assms
  have "c < var_j v + 1 + length (takeWhile (\<lambda>k. st ! var_i v ! k) [var_j v + 1..<w])"
    by (simp add: good_across_def run_loop_takeWhile)
  ultimately show ?thesis
    by (rule takeWhile_upt_filled)
qed

lemma down_down_le:
  assumes g1: "good_down st h v1" and g2: "good_down st h v2"
    and c1: "c \<in> set (cells v1)" and c2: "c \<in> set (cells v2)"
  shows "var_i v2 \<le> var_i v1"
proof (rule ccontr)
  assume "\<not> var_i v2 \<le> var_i v1"
  then have lt: "var_i v1 < var_i v2" by simp
  from g1 g2 have d: "direction v1 = DOWN" "direction v2 = DOWN"
    by (simp_all add: good_down_def)
  from c1 d ACROSS_neq_DOWN obtain k1 where k1: "k1 < var_length v1" "c = (var_i v1 + k1, var_j v1)"
    by (auto simp: set_cells)
  from c2 d ACROSS_neq_DOWN obtain k2 where k2: "k2 < var_length v2" "c = (var_i v2 + k2, var_j v2)"
    by (auto simp: set_cells)
  from k1 k2 have eq: "var_i v1 + k1 = var_i v2 + k2" "var_j v1 = var_j v2" by simp_all
  from lt eq k1 have "var_i v1 \<le> var_i v2 - 1" "var_i v2 - 1 < var_i v1 + var_length v1"
    by simp_all
  from good_down_filled [OF g1 this] eq have "st ! (var_i v2 - 1) ! var_j v2" by simp
  with g2 lt show False by (simp add: good_down_def)
qed

lemma down_down_eq:
  assumes g1: "good_down st h v1" and g2: "good_down st h v2"
    and c1: "c \<in> set (cells v1)" and c2: "c \<in> set (cells v2)"
  shows "v1 = v2"
proof -
  from down_down_le [OF g1 g2 c1 c2] down_down_le [OF g2 g1 c2 c1]
  have i: "var_i v1 = var_i v2" by simp
  from g1 g2 have d: "direction v1 = DOWN" "direction v2 = DOWN"
    by (simp_all add: good_down_def)
  from c1 d ACROSS_neq_DOWN obtain k1 where k1: "c = (var_i v1 + k1, var_j v1)"
    by (auto simp: set_cells)
  from c2 d ACROSS_neq_DOWN obtain k2 where k2: "c = (var_i v2 + k2, var_j v2)"
    by (auto simp: set_cells)
  from k1 k2 have j: "var_j v1 = var_j v2" by simp
  from g1 g2 i j have "var_length v1 = var_length v2" by (simp add: good_down_def)
  with i j d show ?thesis by simp
qed

lemma across_across_le:
  assumes g1: "good_across st w v1" and g2: "good_across st w v2"
    and c1: "c \<in> set (cells v1)" and c2: "c \<in> set (cells v2)"
  shows "var_j v2 \<le> var_j v1"
proof (rule ccontr)
  assume "\<not> var_j v2 \<le> var_j v1"
  then have lt: "var_j v1 < var_j v2" by simp
  from g1 g2 have d: "direction v1 = ACROSS" "direction v2 = ACROSS"
    by (simp_all add: good_across_def)
  from c1 d ACROSS_neq_DOWN obtain k1 where k1: "k1 < var_length v1" "c = (var_i v1, var_j v1 + k1)"
    by (auto simp: set_cells)
  from c2 d ACROSS_neq_DOWN obtain k2 where k2: "k2 < var_length v2" "c = (var_i v2, var_j v2 + k2)"
    by (auto simp: set_cells)
  from k1 k2 have eq: "var_j v1 + k1 = var_j v2 + k2" "var_i v1 = var_i v2" by simp_all
  from lt eq k1 have "var_j v1 \<le> var_j v2 - 1" "var_j v2 - 1 < var_j v1 + var_length v1"
    by simp_all
  from good_across_filled [OF g1 this] eq have "st ! var_i v2 ! (var_j v2 - 1)" by simp
  with g2 lt show False by (simp add: good_across_def)
qed

lemma across_across_eq:
  assumes g1: "good_across st w v1" and g2: "good_across st w v2"
    and c1: "c \<in> set (cells v1)" and c2: "c \<in> set (cells v2)"
  shows "v1 = v2"
proof -
  from across_across_le [OF g1 g2 c1 c2] across_across_le [OF g2 g1 c2 c1]
  have j: "var_j v1 = var_j v2" by simp
  from g1 g2 have d: "direction v1 = ACROSS" "direction v2 = ACROSS"
    by (simp_all add: good_across_def)
  from c1 d ACROSS_neq_DOWN obtain k1 where k1: "c = (var_i v1, var_j v1 + k1)"
    by (auto simp: set_cells)
  from c2 d ACROSS_neq_DOWN obtain k2 where k2: "c = (var_i v2, var_j v2 + k2)"
    by (auto simp: set_cells)
  from k1 k2 have i: "var_i v1 = var_i v2" by simp
  from g1 g2 i j have "var_length v1 = var_length v2" by (simp add: good_across_def)
  with i j d show ?thesis by simp
qed

lemma down_across_cell:
  assumes d: "direction v1 = DOWN" and a: "direction v2 = ACROSS"
    and c1: "c \<in> set (cells v1)" and c2: "c \<in> set (cells v2)"
  shows "c = (var_i v2, var_j v1)"
  using assms ACROSS_neq_DOWN by (auto simp: set_cells)

lemma shared_cell_unique:
  assumes g1: "good_down st h v1 \<or> good_across st w v1"
    and g2: "good_down st h v2 \<or> good_across st w v2"
    and ne: "v1 \<noteq> v2"
    and c: "c \<in> set (cells v1)" "c \<in> set (cells v2)"
    and c': "c' \<in> set (cells v1)" "c' \<in> set (cells v2)"
  shows "c = c'"
proof -
  consider (dd) "good_down st h v1" "good_down st h v2"
    | (aa) "good_across st w v1" "good_across st w v2"
    | (da) "good_down st h v1" "good_across st w v2"
    | (ad) "good_across st w v1" "good_down st h v2"
    using g1 g2 by blast
  then show ?thesis
  proof cases
    case dd
    from down_down_eq [OF dd c] ne show ?thesis by simp
  next
    case aa
    from across_across_eq [OF aa c] ne show ?thesis by simp
  next
    case da
    then have "direction v1 = DOWN" "direction v2 = ACROSS"
      by (simp_all add: good_down_def good_across_def)
    from down_across_cell [OF this c] down_across_cell [OF this c'] show ?thesis by simp
  next
    case ad
    then have "direction v2 = DOWN" "direction v1 = ACROSS"
      by (simp_all add: good_down_def good_across_def)
    from down_across_cell [OF this c(2) c(1)] down_across_cell [OF this c'(2) c'(1)]
    show ?thesis by simp
  qed
qed


section \<open>The overlap table\<close>

lemma index_in:
  "x \<in> set xs \<Longrightarrow> \<exists>n. index xs x = Inr n \<and> n < length xs \<and> xs ! n = x"
  by (induction xs) auto

lemma set_intersection: "set (intersection cells1 cells2) = set cells1 \<inter> set cells2"
  by (auto simp: intersection_def)


lemma pop_in: "s \<noteq> [] \<Longrightarrow> pop n s \<in> set s"
  by (simp add: pop_def)

lemma overlap_cases:
  "(intersection (cells v1) (cells v2) = [] \<and> overlap choice v1 v2 = Inr None) \<or>
   (\<exists>c p q. intersection (cells v1) (cells v2) \<noteq> [] \<and>
      c = pop (choice v1 v2) (intersection (cells v1) (cells v2)) \<and>
      c \<in> set (cells v1) \<and> c \<in> set (cells v2) \<and>
      index (cells v1) c = Inr p \<and> index (cells v2) c = Inr q \<and>
      p < var_length v1 \<and> q < var_length v2 \<and>
      cells v1 ! p = c \<and> cells v2 ! q = c \<and>
      overlap choice v1 v2 = Inr (Some (p, q)))"
proof (cases "intersection (cells v1) (cells v2) = []")
  case True
  then show ?thesis by (simp add: overlap_def)
next
  case False
  define c where "c = pop (choice v1 v2) (intersection (cells v1) (cells v2))"
  from pop_in [OF False] have "c \<in> set (intersection (cells v1) (cells v2))"
    by (simp add: c_def)
  then have c1: "c \<in> set (cells v1)" and c2: "c \<in> set (cells v2)"
    by (simp_all add: set_intersection)
  from index_in [OF c1] obtain p where p: "index (cells v1) c = Inr p" "p < length (cells v1)" "cells v1 ! p = c"
    by blast
  from index_in [OF c2] obtain q where q: "index (cells v2) c = Inr q" "q < length (cells v2)" "cells v2 ! q = c"
    by blast
  from False p q have "overlap choice v1 v2 = Inr (Some (p, q))"
    by (simp add: overlap_def Let_def c_def)
  with False c1 c2 p q c_def show ?thesis
    by (simp add: length_cells)
qed

lemma overlap_total: "\<exists>ov. overlap choice v1 v2 = Inr ov"
  using overlap_cases [of v1 v2 choice] by blast

lemma overlaps_inner_eq:
  "overlaps_inner choice v1 vs m =
     Inr (\<lambda>k. if fst k = v1 \<and> snd k \<in> set vs \<and> snd k \<noteq> v1
               then Some (projr (overlap choice v1 (snd k))) else m k)"
proof (induction vs arbitrary: m)
  case Nil
  then show ?case by simp
next
  case (Cons v2 vs)
  show ?case
  proof (cases "v1 = v2")
    case True
    have "(\<lambda>k. if fst k = v1 \<and> snd k \<in> set vs \<and> snd k \<noteq> v1
               then Some (projr (overlap choice v1 (snd k))) else m k) =
          (\<lambda>k. if fst k = v1 \<and> snd k \<in> set (v2 # vs) \<and> snd k \<noteq> v1
               then Some (projr (overlap choice v1 (snd k))) else m k)"
      (is "?f = ?g")
      using True by (intro ext) auto
    moreover have "overlaps_inner choice v1 (v2 # vs) m = overlaps_inner choice v1 vs m"
      using True by simp
    moreover have "overlaps_inner choice v1 vs m = Inr ?f"
      by (rule Cons.IH)
    ultimately show ?thesis by (simp only:)
  next
    case False
    from overlap_total obtain ov where ov: "overlap choice v1 v2 = Inr ov" by blast
    have "(\<lambda>k. if fst k = v1 \<and> snd k \<in> set vs \<and> snd k \<noteq> v1
               then Some (projr (overlap choice v1 (snd k))) else (m((v1, v2) \<mapsto> ov)) k) =
          (\<lambda>k. if fst k = v1 \<and> snd k \<in> set (v2 # vs) \<and> snd k \<noteq> v1
               then Some (projr (overlap choice v1 (snd k))) else m k)"
      (is "?f = ?g")
      using False ov by (intro ext) (auto simp: prod_eq_iff)
    moreover have "overlaps_inner choice v1 (v2 # vs) m =
        overlaps_inner choice v1 vs (m((v1, v2) \<mapsto> ov))"
      using False ov by simp
    moreover have "overlaps_inner choice v1 vs (m((v1, v2) \<mapsto> ov)) = Inr ?f"
      by (rule Cons.IH)
    ultimately show ?thesis by (simp only:)
  qed
qed

lemma overlaps_outer_eq:
  "overlaps_outer choice vs vars m =
     Inr (\<lambda>k. if fst k \<in> set vs \<and> snd k \<in> set vars \<and> snd k \<noteq> fst k
               then Some (projr (overlap choice (fst k) (snd k))) else m k)"
proof (induction vs arbitrary: m)
  case Nil
  then show ?case by simp
next
  case (Cons v1 vs)
  have "(\<lambda>k. if fst k \<in> set vs \<and> snd k \<in> set vars \<and> snd k \<noteq> fst k
               then Some (projr (overlap choice (fst k) (snd k)))
               else (if fst k = v1 \<and> snd k \<in> set vars \<and> snd k \<noteq> v1
                     then Some (projr (overlap choice v1 (snd k))) else m k)) =
        (\<lambda>k. if fst k \<in> set (v1 # vs) \<and> snd k \<in> set vars \<and> snd k \<noteq> fst k
               then Some (projr (overlap choice (fst k) (snd k))) else m k)"
    (is "?f = ?g")
    by (intro ext) auto
  moreover have "overlaps_outer choice (v1 # vs) vars m = Inr ?f"
    by (simp add: overlaps_inner_eq Cons.IH)
  ultimately show ?case by (simp only:)
qed

lemma compute_overlaps_eq:
  "compute_overlaps choice vars =
     Inr (\<lambda>k. if fst k \<in> set vars \<and> snd k \<in> set vars \<and> snd k \<noteq> fst k
               then Some (projr (overlap choice (fst k) (snd k))) else None)"
  by (simp add: compute_overlaps_def overlaps_outer_eq)

lemma Crossword_init_Inr:
  assumes "Crossword_init contents word_lines choice = Inr cw"
  shows "contents \<noteq> []"
    and "variables cw = scan_variables (structure' cw) (height cw) (width cw)"
    and "height cw = length contents"
    and "width cw = Max (set (map length contents))"
    and "structure' cw = build_structure contents (height cw) (width cw)"
    and "words cw = remdups word_lines"
    and "overlaps cw = (\<lambda>k. if fst k \<in> set (variables cw) \<and> snd k \<in> set (variables cw) \<and> snd k \<noteq> fst k
               then Some (projr (overlap choice (fst k) (snd k))) else None)"
  using assms
  by (auto simp: Crossword_init_def max_len_def Let_def compute_overlaps_eq split: if_splits)

lemma Crossword_init_total:
  "contents \<noteq> [] \<Longrightarrow> \<exists>cw. Crossword_init contents word_lines choice = Inr cw"
  by (simp add: Crossword_init_def max_len_def Let_def compute_overlaps_eq)

lemma Crossword_init_shared_unique:
  assumes init: "Crossword_init contents word_lines choice = Inr cw"
    and v: "v1 \<in> set (variables cw)" "v2 \<in> set (variables cw)" "v1 \<noteq> v2"
    and c: "c \<in> set (cells v1)" "c \<in> set (cells v2)"
    and c': "c' \<in> set (cells v1)" "c' \<in> set (cells v2)"
  shows "c = c'"
proof -
  from Crossword_init_Inr(2) [OF init] v
  have "good_down (structure' cw) (height cw) v1 \<or> good_across (structure' cw) (width cw) v1"
       "good_down (structure' cw) (height cw) v2 \<or> good_across (structure' cw) (width cw) v2"
    by (simp_all add: scan_variables_good)
  from shared_cell_unique [OF this v(3) c c'] show ?thesis .
qed


lemma Crossword_init_overlap_swap:
  assumes init: "Crossword_init contents word_lines choice = Inr cw"
    and v: "v1 \<in> set (variables cw)" "v2 \<in> set (variables cw)" "v1 \<noteq> v2"
    and ov: "overlap choice v1 v2 = Inr (Some (p, q))"
  shows "overlap choice v2 v1 = Inr (Some (q, p))"
proof -
  define c where "c = pop (choice v1 v2) (intersection (cells v1) (cells v2))"
  from overlap_cases [of v1 v2 choice] ov
  have c: "c \<in> set (cells v1)" "c \<in> set (cells v2)" "index (cells v1) c = Inr p" "index (cells v2) c = Inr q"
    unfolding c_def by simp_all
  from c have "c \<in> set (intersection (cells v2) (cells v1))"
    by (simp add: set_intersection)
  then have ne: "intersection (cells v2) (cells v1) \<noteq> []" by auto
  define c' where "c' = pop (choice v2 v1) (intersection (cells v2) (cells v1))"
  from ne overlap_cases [of v2 v1 choice] obtain p' q' where
    c': "c' \<in> set (cells v2)" "c' \<in> set (cells v1)"
      "index (cells v2) c' = Inr p'" "index (cells v1) c' = Inr q'"
      "overlap choice v2 v1 = Inr (Some (p', q'))"
    unfolding c'_def by blast
  from Crossword_init_shared_unique [OF init v c(1,2) c'(2,1)] have "c = c'" .
  with c c' show ?thesis by simp
qed

lemma Crossword_init_overlap_None_swap:
  assumes ov: "overlap choice v1 v2 = Inr None"
  shows "overlap choice v2 v1 = Inr None"
proof -
  from overlap_cases [of v1 v2 choice] ov have "intersection (cells v1) (cells v2) = []"
    by auto
  then have "set (cells v1) \<inter> set (cells v2) = {}"
    using set_intersection [of "cells v1" "cells v2"] by simp
  then have "set (intersection (cells v2) (cells v1)) = {}"
    by (auto simp: set_intersection)
  then have "intersection (cells v2) (cells v1) = []" by simp
  then show ?thesis by (simp add: overlap_def)
qed

lemma scanned_distinct_cells:
  assumes "Crossword_init contents word_lines choice = Inr cw" and "v \<in> set (variables cw)"
  shows "distinct (cells v)"
proof -
  from Crossword_init_Inr(2) [OF assms(1)] assms(2)
  have "good_down (structure' cw) (height cw) v \<or> good_across (structure' cw) (width cw) v"
    by (simp add: scan_variables_good)
  then have "direction v = DOWN \<or> direction v = ACROSS"
    by (auto simp: good_down_def good_across_def)
  then show ?thesis using distinct_cells_across distinct_cells_down by blast
qed

lemma Crossword_init_overlap_cell:
  assumes init: "Crossword_init contents word_lines choice = Inr cw"
    and v: "v \<in> set (variables cw)" "n \<in> set (variables cw)" "v \<noteq> n"
    and ij: "i < var_length v" "j < var_length n" "cells v ! i = cells n ! j"
  shows "overlaps cw (v, n) = Some (Some (i, j))"
proof -
  let ?c = "cells v ! i"
  from ij have c: "?c \<in> set (cells v)" "?c \<in> set (cells n)"
    by (simp_all add: length_cells) (metis length_cells nth_mem)
  then have ne: "intersection (cells v) (cells n) \<noteq> []"
    using set_intersection [of "cells v" "cells n"] by auto
  define c' where "c' = pop (choice v n) (intersection (cells v) (cells n))"
  from ne overlap_cases [of v n choice] obtain p q where
    c': "c' \<in> set (cells v)" "c' \<in> set (cells n)" "p < var_length v" "q < var_length n"
      "cells v ! p = c'" "cells n ! q = c'" "overlap choice v n = Inr (Some (p, q))"
    unfolding c'_def by blast
  from Crossword_init_shared_unique [OF init v c c'(1,2)] have e: "c' = ?c" by simp
  from scanned_distinct_cells [OF init v(1)] c'(3,5) ij(1) e have "p = i"
    by (simp add: nth_eq_iff_index_eq length_cells)
  moreover from scanned_distinct_cells [OF init v(2)] c'(4,6) ij(2,3) e have "q = j"
    by (simp add: nth_eq_iff_index_eq length_cells)
  ultimately have "overlap choice v n = Inr (Some (i, j))" using c'(7) by simp
  with v show ?thesis by (simp add: Crossword_init_Inr(7) [OF init])
qed


text \<open>A choice function (always the first shared cell) and a 3 by 5 grid, for concrete runs.\<close>

definition pop_first :: "Variable \<Rightarrow> Variable \<Rightarrow> nat" where
  "pop_first v1 v2 = 0"

definition example_contents :: "string list" where
  "example_contents = [''#___#'', ''#_##_'', ''#____'']"

lemma example_variables:
  "scan_variables (build_structure example_contents 3 5) 3 5 =
    [\<lparr>var_i = 0, var_j = 1, direction = DOWN, var_length = 3\<rparr>,
     \<lparr>var_i = 0, var_j = 1, direction = ACROSS, var_length = 3\<rparr>,
     \<lparr>var_i = 1, var_j = 4, direction = DOWN, var_length = 2\<rparr>,
     \<lparr>var_i = 2, var_j = 1, direction = ACROSS, var_length = 4\<rparr>]"
  by (simp add: scan_variables_def build_structure_def example_contents_def upt_conv_Cons
      scan_down_def scan_across_def set_add_def ACROSS_def DOWN_def)

lemma example_init:
  assumes "Crossword_init example_contents word_lines choice = Inr cw"
  shows "variables cw =
    [\<lparr>var_i = 0, var_j = 1, direction = DOWN, var_length = 3\<rparr>,
     \<lparr>var_i = 0, var_j = 1, direction = ACROSS, var_length = 3\<rparr>,
     \<lparr>var_i = 1, var_j = 4, direction = DOWN, var_length = 2\<rparr>,
     \<lparr>var_i = 2, var_j = 1, direction = ACROSS, var_length = 4\<rparr>]"
proof -
  have h: "height cw = 3" using Crossword_init_Inr(3) [OF assms]
    by (simp add: example_contents_def)
  have w: "width cw = 5" using Crossword_init_Inr(4) [OF assms]
    by (simp add: example_contents_def)
  from Crossword_init_Inr(2,5) [OF assms] h w example_variables show ?thesis
    by simp
qed

text \<open>
  C6. In every built constraint graph and for every pair of distinct slots \<open>A\<close> and \<open>B\<close>,
  both entries of the overlap table exist, \<open>overlaps[A, B]\<close> is \<open>None\<close> if and only if
  \<open>overlaps[B, A]\<close> is \<open>None\<close>, and \<open>overlaps[A, B] = (p, q)\<close> if and only if
  \<open>overlaps[B, A] = (q, p)\<close>, whatever element \<open>pop()\<close> returns.
\<close>

theorem overlaps_symmetric:
  assumes "Crossword_init contents word_lines choice = Inr cw"
    and "A \<in> set (variables cw)" and "B \<in> set (variables cw)" and "A \<noteq> B"
  shows "overlaps cw (A, B) \<noteq> None \<and> overlaps cw (B, A) \<noteq> None \<and>
         (overlaps cw (A, B) = Some None \<longleftrightarrow> overlaps cw (B, A) = Some None) \<and>
         (overlaps cw (A, B) = Some (Some (p, q)) \<longleftrightarrow> overlaps cw (B, A) = Some (Some (q, p)))"
proof -
  from assms have ab: "overlaps cw (A, B) = Some (projr (overlap choice A B))"
    and ba: "overlaps cw (B, A) = Some (projr (overlap choice B A))"
    by (simp_all add: Crossword_init_Inr(7) [OF assms(1)])
  from overlap_total obtain x where x: "overlap choice A B = Inr x" by blast
  from overlap_total obtain y where y: "overlap choice B A = Inr y" by blast
  have none: "x = None \<longleftrightarrow> y = None"
    using Crossword_init_overlap_None_swap [of choice A B]
      Crossword_init_overlap_None_swap [of choice B A] x y by auto
  have some: "x = Some (p, q) \<longleftrightarrow> y = Some (q, p)"
    using Crossword_init_overlap_swap [OF assms(1) assms(2) assms(3) assms(4), of p q]
      Crossword_init_overlap_swap [OF assms(1) assms(3) assms(2) assms(4) [symmetric], of q p]
      x y by auto
  from ab ba x y none some show ?thesis by simp
qed

theorem overlaps_symmetric_witness:
  "\<exists>cw. Crossword_init example_contents [] pop_first = Inr cw \<and>
     overlaps cw (\<lparr>var_i = 0, var_j = 1, direction = DOWN, var_length = 3\<rparr>,
                  \<lparr>var_i = 2, var_j = 1, direction = ACROSS, var_length = 4\<rparr>) = Some (Some (2, 0)) \<and>
     overlaps cw (\<lparr>var_i = 2, var_j = 1, direction = ACROSS, var_length = 4\<rparr>,
                  \<lparr>var_i = 0, var_j = 1, direction = DOWN, var_length = 3\<rparr>) = Some (Some (0, 2))"
proof -
  let ?A = "\<lparr>var_i = 0, var_j = 1, direction = DOWN, var_length = 3\<rparr>"
  let ?B = "\<lparr>var_i = 2, var_j = 1, direction = ACROSS, var_length = 4\<rparr>"
  have "example_contents \<noteq> []" by (simp add: example_contents_def)
  from Crossword_init_total [OF this] obtain cw
    where cw: "Crossword_init example_contents [] pop_first = Inr cw" by blast
  have A: "?A \<in> set (variables cw)" and B: "?B \<in> set (variables cw)"
    by (simp_all add: example_init [OF cw])
  have ne: "?A \<noteq> ?B" by simp
  have "overlap pop_first ?A ?B = Inr (Some (2, 0))"
    by (simp add: overlap_def cells_def upt_conv_Cons intersection_def pop_def pop_first_def
        ACROSS_def DOWN_def)
  with A B have ab: "overlaps cw (?A, ?B) = Some (Some (2, 0))"
    by (simp add: Crossword_init_Inr(7) [OF cw])
  with overlaps_symmetric [OF cw A B ne, of 2 0] have "overlaps cw (?B, ?A) = Some (Some (0, 2))"
    by blast
  with cw ab show ?thesis by blast
qed



text \<open>
  \<open>Crossword.neighbors\<close>: \<open>set(v for v in self.variables if v != var and self.overlaps[v, var])\<close>.
  The lookup raises \<open>KeyError\<close> on a missing key; an index pair is truthy, \<open>None\<close> is not.
\<close>

fun neighbors_loop :: "Crossword \<Rightarrow> Variable \<Rightarrow> Variable list \<Rightarrow> error + Variable list" where
  "neighbors_loop cw var [] = Inr []"
| "neighbors_loop cw var (v # vs) =
     (if v \<noteq> var then
        (case overlaps cw (v, var) of
           None \<Rightarrow> Inl KeyError
         | Some ov \<Rightarrow>
             (case neighbors_loop cw var vs of
                Inl e \<Rightarrow> Inl e
              | Inr ns \<Rightarrow> Inr (if ov \<noteq> None then v # ns else ns)))
      else neighbors_loop cw var vs)"

definition neighbors :: "Crossword \<Rightarrow> Variable \<Rightarrow> error + Variable list" where
  "neighbors cw var =
     (case neighbors_loop cw var (variables cw) of Inl e \<Rightarrow> Inl e | Inr ns \<Rightarrow> Inr (remdups ns))"

section \<open>Class \<open>CrosswordCreator\<close> of \<open>generate.py\<close>\<close>

text \<open>
  The dicts \<open>self.domains\<close> and \<open>assignment\<close> are association lists in insertion order
  (\<open>AList.update\<close> replaces the value of a key in place and appends a new key, as a Python
  dict does); a domain, a Python set of words, is a list that enumerates it. A method that
  mutates \<open>self.domains\<close> returns the updated object.
\<close>

type_synonym domains = "(Variable \<times> string list) list"

type_synonym assignment = "(Variable \<times> string) list"

record CrosswordCreator =
  crossword :: Crossword
  domains :: domains

definition CrosswordCreator_init :: "Crossword \<Rightarrow> CrosswordCreator" where
  "CrosswordCreator_init cw =
     \<lparr>crossword = cw,
      domains = fold (\<lambda>var d. AList.update var (words cw) d) (variables cw) []\<rparr>"

text \<open>
  \<open>d[k]\<close>, \<open>s[k]\<close> for a string and a natural index, \<open>set.remove\<close> (which raises
  \<open>KeyError\<close> on an absent element) and \<open>self.domains[var].remove(word)\<close>.
\<close>

definition lookup :: "('k \<times> 'v) list \<Rightarrow> 'k \<Rightarrow> error + 'v" where
  "lookup d k = (case map_of d k of None \<Rightarrow> Inl KeyError | Some v \<Rightarrow> Inr v)"

definition str_index :: "string \<Rightarrow> nat \<Rightarrow> error + char" where
  "str_index s k = (if k < length s then Inr (s ! k) else Inl IndexError)"

definition set_remove :: "'a \<Rightarrow> 'a list \<Rightarrow> error + 'a list" where
  "set_remove x xs = (if x \<in> set xs then Inr (removeAll x xs) else Inl KeyError)"

definition domain_remove :: "domains \<Rightarrow> Variable \<Rightarrow> string \<Rightarrow> error + domains" where
  "domain_remove doms var word =
     (case lookup doms var of
        Inl e \<Rightarrow> Inl e
      | Inr ws \<Rightarrow>
          (case set_remove word ws of
             Inl e \<Rightarrow> Inl e
           | Inr ws' \<Rightarrow> Inr (AList.update var ws' doms)))"

text \<open>
  \<open>enforce_node_consistency\<close>: the outer loop runs over the keys of \<open>self.domains\<close>, the
  inner loop over the copy \<open>set(self.domains[variable])\<close>.
\<close>

fun enforce_words :: "Variable \<Rightarrow> string list \<Rightarrow> domains \<Rightarrow> error + domains" where
  "enforce_words variable [] doms = Inr doms"
| "enforce_words variable (word # rest) doms =
     (if length word \<noteq> var_length variable then
        (case domain_remove doms variable word of
           Inl e \<Rightarrow> Inl e
         | Inr doms' \<Rightarrow> enforce_words variable rest doms')
      else enforce_words variable rest doms)"

fun enforce_variables :: "Variable list \<Rightarrow> domains \<Rightarrow> error + domains" where
  "enforce_variables [] doms = Inr doms"
| "enforce_variables (variable # rest) doms =
     (case lookup doms variable of
        Inl e \<Rightarrow> Inl e
      | Inr ws \<Rightarrow>
          (case enforce_words variable (remdups ws) doms of
             Inl e \<Rightarrow> Inl e
           | Inr doms' \<Rightarrow> enforce_variables rest doms'))"

definition enforce_node_consistency :: "CrosswordCreator \<Rightarrow> error + CrosswordCreator" where
  "enforce_node_consistency self =
     (case enforce_variables (map fst (domains self)) (domains self) of
        Inl e \<Rightarrow> Inl e
      | Inr doms' \<Rightarrow> Inr (self\<lparr>domains := doms'\<rparr>))"

text \<open>
  \<open>revise\<close>. \<open>any_match\<close> is the generator expression under \<open>any\<close>: it stops at the first
  word of \<open>y\<close>'s domain that agrees, and indexes both words at every step before that.
\<close>

fun any_match :: "string \<Rightarrow> nat \<Rightarrow> string list \<Rightarrow> nat \<Rightarrow> error + bool" where
  "any_match x_word x_index [] y_index = Inr False"
| "any_match x_word x_index (y_word # rest) y_index =
     (case str_index x_word x_index of
        Inl e \<Rightarrow> Inl e
      | Inr a \<Rightarrow>
          (case str_index y_word y_index of
             Inl e \<Rightarrow> Inl e
           | Inr b \<Rightarrow> if a = b then Inr True else any_match x_word x_index rest y_index))"

fun revise_loop ::
  "Variable \<Rightarrow> Variable \<Rightarrow> nat \<Rightarrow> nat \<Rightarrow> string list \<Rightarrow> domains \<Rightarrow> bool \<Rightarrow> error + (bool \<times> domains)" where
  "revise_loop x y x_index y_index [] doms revised = Inr (revised, doms)"
| "revise_loop x y x_index y_index (x_word # rest) doms revised =
     (case lookup doms y of
        Inl e \<Rightarrow> Inl e
      | Inr y_words \<Rightarrow>
          (case any_match x_word x_index y_words y_index of
             Inl e \<Rightarrow> Inl e
           | Inr found \<Rightarrow>
               if \<not> found then
                 (case domain_remove doms x x_word of
                    Inl e \<Rightarrow> Inl e
                  | Inr doms' \<Rightarrow> revise_loop x y x_index y_index rest doms' True)
               else revise_loop x y x_index y_index rest doms revised))"

definition revise :: "CrosswordCreator \<Rightarrow> Variable \<Rightarrow> Variable \<Rightarrow> error + (bool \<times> CrosswordCreator)" where
  "revise self x y =
     (case overlaps (crossword self) (x, y) of
        None \<Rightarrow> Inl KeyError
      | Some None \<Rightarrow> Inr (False, self)
      | Some (Some (x_index, y_index)) \<Rightarrow>
          (case lookup (domains self) x of
             Inl e \<Rightarrow> Inl e
           | Inr x_words \<Rightarrow>
               (case revise_loop x y x_index y_index (remdups x_words) (domains self) False of
                  Inl e \<Rightarrow> Inl e
                | Inr (revised, doms') \<Rightarrow> Inr (revised, self\<lparr>domains := doms'\<rparr>))))"

text \<open>
  \<open>ac3\<close>. \<open>all_arcs\<close> is the list comprehension that builds the initial worklist,
  \<open>ac3_loop\<close> the \<open>while arcs\<close> loop. The loop terminates because a revision that reports
  a change has removed a word.
\<close>

fun all_arcs :: "Crossword \<Rightarrow> Variable list \<Rightarrow> error + (Variable \<times> Variable) list" where
  "all_arcs cw [] = Inr []"
| "all_arcs cw (x # xs) =
     (case neighbors cw x of
        Inl e \<Rightarrow> Inl e
      | Inr ns \<Rightarrow>
          (case all_arcs cw xs of
             Inl e \<Rightarrow> Inl e
           | Inr arcs \<Rightarrow> Inr (map (\<lambda>y. (x, y)) ns @ arcs)))"

definition total_size :: "domains \<Rightarrow> nat" where
  "total_size doms = sum_list (map (\<lambda>p. length (snd p)) doms)"

lemma total_size_update:
  "map_of doms x = Some ws \<Longrightarrow>
     total_size (AList.update x ws' doms) + length ws = total_size doms + length ws'"
  by (induction doms) (auto simp: total_size_def)

lemma domain_remove_size:
  assumes "domain_remove doms x w = Inr doms'"
  shows "total_size doms' < total_size doms"
proof -
  from assms obtain ws where ws: "map_of doms x = Some ws" "w \<in> set ws"
    "doms' = AList.update x (removeAll w ws) doms"
    by (auto simp: domain_remove_def lookup_def set_remove_def split: option.splits if_splits)
  from total_size_update [OF ws(1), of "removeAll w ws"] length_removeAll_less [OF ws(2)] ws(3)
  show ?thesis by simp
qed

lemma revise_loop_size:
  "revise_loop x y xi yi ws doms revised = Inr (b, doms') \<Longrightarrow>
     total_size doms' \<le> total_size doms \<and> (b \<longrightarrow> revised \<or> total_size doms' < total_size doms)"
proof (induction ws arbitrary: doms revised)
  case Nil
  then show ?case by simp
next
  case (Cons w ws)
  from Cons.prems obtain ys found where ys: "lookup doms y = Inr ys"
    and found: "any_match w xi ys yi = Inr found"
    by (auto split: sum.splits)
  show ?case
  proof (cases found)
    case True
    with Cons.prems ys found have "revise_loop x y xi yi ws doms revised = Inr (b, doms')"
      by simp
    from Cons.IH [OF this] show ?thesis .
  next
    case False
    with Cons.prems ys found obtain d1 where d1: "domain_remove doms x w = Inr d1"
      and r: "revise_loop x y xi yi ws d1 True = Inr (b, doms')"
      by (auto split: sum.splits)
    from Cons.IH [OF r] domain_remove_size [OF d1] show ?thesis by simp
  qed
qed

lemma revise_size:
  assumes "revise self x y = Inr (b, self')"
  shows "total_size (domains self') \<le> total_size (domains self) \<and>
         (b \<longrightarrow> total_size (domains self') < total_size (domains self))"
proof (cases "overlaps (crossword self) (x, y)")
  case None
  with assms show ?thesis by (simp add: revise_def)
next
  case (Some ov)
  show ?thesis
  proof (cases ov)
    case None
    with Some assms show ?thesis by (auto simp: revise_def)
  next
    case (Some pq)
    obtain xi yi where pq: "pq = (xi, yi)" by (cases pq)
    from assms \<open>overlaps (crossword self) (x, y) = Some ov\<close> Some pq
    obtain ws doms' where "revise_loop x y xi yi (remdups ws) (domains self) False = Inr (b, doms')"
      and "self' = self\<lparr>domains := doms'\<rparr>"
      by (auto simp: revise_def split: sum.splits)
    with revise_loop_size [of x y xi yi "remdups ws" "domains self" False b doms']
    show ?thesis by simp
  qed
qed

function ac3_loop ::
  "CrosswordCreator \<Rightarrow> (Variable \<times> Variable) list \<Rightarrow> error + (bool \<times> CrosswordCreator)" where
  "ac3_loop self [] = Inr (True, self)"
| "ac3_loop self ((x, y) # arcs) =
     (case revise self x y of
        Inl e \<Rightarrow> Inl e
      | Inr (revised, self') \<Rightarrow>
          if revised then
            (case lookup (domains self') x of
               Inl e \<Rightarrow> Inl e
             | Inr x_words \<Rightarrow>
                 if x_words = [] then Inr (False, self')
                 else
                   (case neighbors (crossword self') x of
                      Inl e \<Rightarrow> Inl e
                    | Inr ns \<Rightarrow>
                        ac3_loop self' (arcs @ map (\<lambda>neighbor. (neighbor, x)) (removeAll y ns))))
          else ac3_loop self' arcs)"
  by pat_completeness auto
termination
proof (relation "measures [\<lambda>(self, arcs). total_size (domains self), \<lambda>(self, arcs). length arcs]")
  show "wf (measures [\<lambda>(self, arcs). total_size (domains self), \<lambda>(self, arcs). length arcs])"
    by simp
next
  fix self x y arcs r revised self' x_words ns
  assume "revise self x y = Inr r" "(revised, self') = r" "revised"
  then have "revise self x y = Inr (True, self')" by auto
  from revise_size [OF this]
  show "((self', arcs @ map (\<lambda>neighbor. (neighbor, x)) (removeAll y ns)), self, (x, y) # arcs)
      \<in> measures [\<lambda>(self, arcs). total_size (domains self), \<lambda>(self, arcs). length arcs]"
    by simp
next
  fix self x y arcs r revised self'
  assume "revise self x y = Inr r" "(revised, self') = r" "\<not> revised"
  then have "revise self x y = Inr (False, self')" by auto
  from revise_size [OF this]
  show "((self', arcs), self, (x, y) # arcs)
      \<in> measures [\<lambda>(self, arcs). total_size (domains self), \<lambda>(self, arcs). length arcs]"
    by auto
qed

definition ac3 ::
  "CrosswordCreator \<Rightarrow> (Variable \<times> Variable) list option \<Rightarrow> error + (bool \<times> CrosswordCreator)" where
  "ac3 self arcs =
     (case arcs of
        None \<Rightarrow>
          (case all_arcs (crossword self) (map fst (domains self)) of
             Inl e \<Rightarrow> Inl e
           | Inr arcs' \<Rightarrow> ac3_loop self arcs')
      | Some arcs' \<Rightarrow> ac3_loop self arcs')"

section \<open>Node consistency\<close>

lemma lookup_Inr [simp]: "lookup d k = Inr v \<longleftrightarrow> map_of d k = Some v"
  by (simp add: lookup_def split: option.splits)

lemma lookup_Inl [simp]: "lookup d k = Inl e \<longleftrightarrow> map_of d k = None \<and> e = KeyError"
  by (auto simp: lookup_def split: option.splits)

lemma lookup_Some: "map_of d k = Some v \<Longrightarrow> lookup d k = Inr v"
  by simp

lemma lookup_None: "map_of d k = None \<Longrightarrow> lookup d k = Inl KeyError"
  by simp

lemma domain_remove_Inr:
  "domain_remove doms x w = Inr doms' \<longleftrightarrow>
     (\<exists>ws. map_of doms x = Some ws \<and> w \<in> set ws \<and> doms' = AList.update x (removeAll w ws) doms)"
  by (auto simp: domain_remove_def set_remove_def split: sum.splits option.splits)

lemma removeAll_filter: "removeAll x xs = filter (\<lambda>w. w \<noteq> x) xs"
  by (induction xs) auto

lemma enforce_words_eq:
  assumes "map_of doms v = Some ws" "distinct cs"
    "\<forall>c\<in>set cs. length c \<noteq> var_length v \<longrightarrow> c \<in> set ws"
  shows "enforce_words v cs doms =
     Inr (AList.update v (filter (\<lambda>w. \<not> (w \<in> set cs \<and> length w \<noteq> var_length v)) ws) doms)"
  using assms
proof (induction cs arbitrary: doms ws)
  case Nil
  then show ?case by (simp add: AList.update_triv)
next
  case (Cons c cs)
  show ?case
  proof (cases "length c \<noteq> var_length v")
    case False
    with Cons.prems have "enforce_words v cs doms =
      Inr (AList.update v (filter (\<lambda>w. \<not> (w \<in> set cs \<and> length w \<noteq> var_length v)) ws) doms)"
      by (intro Cons.IH) auto
    moreover from False
    have "filter (\<lambda>w. \<not> (w \<in> set cs \<and> length w \<noteq> var_length v)) ws =
          filter (\<lambda>w. \<not> (w \<in> set (c # cs) \<and> length w \<noteq> var_length v)) ws"
      by (intro filter_cong) auto
    ultimately show ?thesis using False by simp
  next
    case True
    with Cons.prems have cin: "c \<in> set ws" by simp
    let ?d = "AList.update v (removeAll c ws) doms"
    from Cons.prems cin have rem: "domain_remove doms v c = Inr ?d"
      by (simp add: domain_remove_Inr)
    have m: "map_of ?d v = Some (removeAll c ws)"
      by (simp add: AList.update_conv')
    from Cons.prems have d: "distinct cs" and
      sub: "\<forall>c'\<in>set cs. length c' \<noteq> var_length v \<longrightarrow> c' \<in> set (removeAll c ws)"
      by auto
    from Cons.IH [OF m d sub]
    have "enforce_words v cs ?d =
      Inr (AList.update v (filter (\<lambda>w. \<not> (w \<in> set cs \<and> length w \<noteq> var_length v)) (removeAll c ws)) doms)"
      by simp
    moreover from True
    have "filter (\<lambda>w. \<not> (w \<in> set cs \<and> length w \<noteq> var_length v)) (removeAll c ws) =
          filter (\<lambda>w. \<not> (w \<in> set (c # cs) \<and> length w \<noteq> var_length v)) ws"
      unfolding removeAll_filter filter_filter by (intro filter_cong) auto
    ultimately show ?thesis using True rem by simp
  qed
qed

lemma enforce_words_remdups:
  assumes "map_of doms v = Some ws"
  shows "enforce_words v (remdups ws) doms =
     Inr (AList.update v (filter (\<lambda>w. length w = var_length v) ws) doms)"
proof -
  have "filter (\<lambda>w. \<not> (w \<in> set (remdups ws) \<and> length w \<noteq> var_length v)) ws =
        filter (\<lambda>w. length w = var_length v) ws"
    by (intro filter_cong) auto
  with enforce_words_eq [OF assms, of "remdups ws"] show ?thesis by simp
qed

lemma enforce_variables_eq:
  assumes "set ks \<subseteq> fst ` set doms"
  shows "\<exists>doms'. enforce_variables ks doms = Inr doms' \<and>
     map fst doms' = map fst doms \<and>
     (\<forall>v. map_of doms' v =
        (if v \<in> set ks then map_option (filter (\<lambda>w. length w = var_length v)) (map_of doms v)
         else map_of doms v))"
  using assms
proof (induction ks arbitrary: doms)
  case Nil
  then show ?case by simp
next
  case (Cons k ks)
  from Cons.prems have "k \<in> fst ` set doms" by simp
  then obtain ws where ws: "map_of doms k = Some ws"
    by (metis domD dom_map_of_conv_image_fst)
  let ?d = "AList.update k (filter (\<lambda>w. length w = var_length k) ws) doms"
  from \<open>k \<in> fst ` set doms\<close> have keys: "map fst ?d = map fst doms"
    by (simp add: AList.update_keys)
  with Cons.prems have "set ks \<subseteq> fst ` set ?d"
    by (metis list.set_map set_subset_Cons subset_trans)
  from Cons.IH [OF this] obtain doms' where d: "enforce_variables ks ?d = Inr doms'"
    "map fst doms' = map fst ?d"
    "\<forall>v. map_of doms' v =
        (if v \<in> set ks then map_option (filter (\<lambda>w. length w = var_length v)) (map_of ?d v)
         else map_of ?d v)"
    by blast
  from ws d(1) have "enforce_variables (k # ks) doms = Inr doms'"
    by (simp add: enforce_words_remdups lookup_Some)
  moreover from d(2) keys have "map fst doms' = map fst doms" by simp
  moreover have "\<forall>v. map_of doms' v =
        (if v \<in> set (k # ks) then map_option (filter (\<lambda>w. length w = var_length v)) (map_of doms v)
         else map_of doms v)"
    using d(3) ws by (auto simp: AList.update_conv')
  ultimately show ?case by blast
qed

lemma enforce_node_consistency_eq:
  "\<exists>self'. enforce_node_consistency self = Inr self' \<and>
     crossword self' = crossword self \<and>
     map fst (domains self') = map fst (domains self) \<and>
     (\<forall>v. map_of (domains self') v =
        map_option (filter (\<lambda>w. length w = var_length v)) (map_of (domains self) v))"
proof -
  have "set (map fst (domains self)) \<subseteq> fst ` set (domains self)" by simp
  from enforce_variables_eq [OF this] obtain doms' where
    d: "enforce_variables (map fst (domains self)) (domains self) = Inr doms'"
    "map fst doms' = map fst (domains self)"
    "\<forall>v. map_of doms' v =
        (if v \<in> set (map fst (domains self))
         then map_option (filter (\<lambda>w. length w = var_length v)) (map_of (domains self) v)
         else map_of (domains self) v)"
    by blast
  have "\<forall>v. map_of doms' v =
        map_option (filter (\<lambda>w. length w = var_length v)) (map_of (domains self) v)"
  proof
    fix v
    show "map_of doms' v =
        map_option (filter (\<lambda>w. length w = var_length v)) (map_of (domains self) v)"
    proof (cases "v \<in> set (map fst (domains self))")
      case True
      with d(3) show ?thesis by simp
    next
      case False
      then have "map_of (domains self) v = None"
        by (simp add: map_of_eq_None_iff)
      with False d(3) show ?thesis by simp
    qed
  qed
  with d(1,2) show ?thesis
    by (simp add: enforce_node_consistency_def)
qed

section \<open>Revision of an arc\<close>

text \<open>
  A word \<open>w\<close> of \<open>x\<close>'s domain is supported when some word of \<open>y\<close>'s domain has at
  position \<open>iy\<close> the character that \<open>w\<close> has at position \<open>ix\<close>.
\<close>

definition supported :: "string \<Rightarrow> nat \<Rightarrow> string list \<Rightarrow> nat \<Rightarrow> bool" where
  "supported w ix ys iy \<longleftrightarrow>
     (\<exists>yw\<in>set ys. ix < length w \<and> iy < length yw \<and> w ! ix = yw ! iy)"

lemma any_match_Inr:
  "any_match w ix ys iy = Inr found \<Longrightarrow> found = supported w ix ys iy"
  by (induction ys) (auto simp: supported_def str_index_def split: if_splits sum.splits)

lemma any_match_total:
  "ix < length w \<Longrightarrow> \<forall>yw\<in>set ys. iy < length yw \<Longrightarrow> \<exists>found. any_match w ix ys iy = Inr found"
  by (induction ys) (auto simp: str_index_def)

lemma revise_loop_eq:
  assumes "revise_loop x y ix iy cs doms revised = Inr (b, doms')"
    and "map_of doms x = Some xs" and "map_of doms y = Some ys" and "x \<noteq> y"
  shows "doms' = AList.update x (filter (\<lambda>w. \<not> (w \<in> set cs \<and> \<not> supported w ix ys iy)) xs) doms \<and>
         (b \<longleftrightarrow> revised \<or> (\<exists>w\<in>set cs. \<not> supported w ix ys iy))"
  using assms
proof (induction cs arbitrary: doms xs revised)
  case Nil
  then show ?case by (simp add: AList.update_triv)
next
  case (Cons c cs)
  from Cons.prems obtain found where found: "any_match c ix ys iy = Inr found"
    by (auto simp: lookup_Some split: sum.splits)
  then have f: "found = supported c ix ys iy" by (rule any_match_Inr)
  show ?case
  proof (cases found)
    case True
    with Cons.prems found have "revise_loop x y ix iy cs doms revised = Inr (b, doms')"
      by (simp add: lookup_Some)
    from Cons.IH [OF this Cons.prems(2,3,4)]
    have "doms' = AList.update x (filter (\<lambda>w. \<not> (w \<in> set cs \<and> \<not> supported w ix ys iy)) xs) doms"
      and "b \<longleftrightarrow> revised \<or> (\<exists>w\<in>set cs. \<not> supported w ix ys iy)" by simp_all
    moreover from True f
    have "filter (\<lambda>w. \<not> (w \<in> set cs \<and> \<not> supported w ix ys iy)) xs =
          filter (\<lambda>w. \<not> (w \<in> set (c # cs) \<and> \<not> supported w ix ys iy)) xs"
      by (intro filter_cong) auto
    ultimately show ?thesis using True f by simp
  next
    case False
    with Cons.prems found obtain d1 where d1: "domain_remove doms x c = Inr d1"
      and r: "revise_loop x y ix iy cs d1 True = Inr (b, doms')"
      by (auto simp: lookup_Some split: sum.splits)
    from d1 Cons.prems(2) have d1_eq: "d1 = AList.update x (removeAll c xs) doms"
      by (simp add: domain_remove_Inr)
    have mx: "map_of d1 x = Some (removeAll c xs)"
      by (simp add: d1_eq AList.update_conv')
    from Cons.prems(3,4) have my: "map_of d1 y = Some ys"
      by (simp add: d1_eq AList.update_conv')
    from Cons.IH [OF r mx my Cons.prems(4)]
    have "doms' = AList.update x (filter (\<lambda>w. \<not> (w \<in> set cs \<and> \<not> supported w ix ys iy)) (removeAll c xs)) d1"
      and "b \<longleftrightarrow> True \<or> (\<exists>w\<in>set cs. \<not> supported w ix ys iy)" by simp_all
    moreover from False f
    have "filter (\<lambda>w. \<not> (w \<in> set cs \<and> \<not> supported w ix ys iy)) (removeAll c xs) =
          filter (\<lambda>w. \<not> (w \<in> set (c # cs) \<and> \<not> supported w ix ys iy)) xs"
      unfolding removeAll_filter filter_filter by (intro filter_cong) auto
    ultimately show ?thesis using False f by (simp add: d1_eq)
  qed
qed

lemma revise_loop_total:
  assumes "map_of doms x = Some xs" and "map_of doms y = Some ys" and "x \<noteq> y"
    and "distinct cs" and "set cs \<subseteq> set xs"
    and "\<forall>w\<in>set cs. ix < length w" and "\<forall>yw\<in>set ys. iy < length yw"
  shows "\<exists>r. revise_loop x y ix iy cs doms revised = Inr r"
  using assms
proof (induction cs arbitrary: doms xs revised)
  case Nil
  then show ?case by simp
next
  case (Cons c cs)
  from Cons.prems any_match_total [of ix c ys iy]
  obtain found where found: "any_match c ix ys iy = Inr found" by auto
  show ?case
  proof (cases found)
    case True
    from Cons.prems have "\<exists>r. revise_loop x y ix iy cs doms revised = Inr r"
      by (intro Cons.IH [of doms xs]) auto
    with True found Cons.prems(2) show ?thesis by (simp add: lookup_Some)
  next
    case False
    let ?d = "AList.update x (removeAll c xs) doms"
    from Cons.prems have rem: "domain_remove doms x c = Inr ?d"
      by (simp add: domain_remove_Inr)
    have mx: "map_of ?d x = Some (removeAll c xs)"
      by (simp add: AList.update_conv')
    from Cons.prems(2,3) have my: "map_of ?d y = Some ys"
      by (simp add: AList.update_conv')
    from Cons.prems have "\<exists>r. revise_loop x y ix iy cs ?d True = Inr r"
      by (intro Cons.IH [OF mx my]) auto
    with False found rem Cons.prems(2) show ?thesis by (simp add: lookup_Some)
  qed
qed

lemma revise_eq:
  assumes ov: "overlaps (crossword self) (x, y) = Some (Some (ix, iy))"
    and xs: "map_of (domains self) x = Some xs" and ys: "map_of (domains self) y = Some ys"
    and ne: "x \<noteq> y"
    and r: "revise self x y = Inr (b, self')"
  shows "self' = self\<lparr>domains := AList.update x (filter (\<lambda>w. supported w ix ys iy) xs) (domains self)\<rparr>"
    and "b \<longleftrightarrow> (\<exists>w\<in>set xs. \<not> supported w ix ys iy)"
proof -
  from r ov xs obtain doms' where
    l: "revise_loop x y ix iy (remdups xs) (domains self) False = Inr (b, doms')"
    and s: "self' = self\<lparr>domains := doms'\<rparr>"
    by (auto simp: revise_def lookup_Some split: sum.splits)
  have "filter (\<lambda>w. \<not> (w \<in> set (remdups xs) \<and> \<not> supported w ix ys iy)) xs =
        filter (\<lambda>w. supported w ix ys iy) xs"
    by (intro filter_cong) auto
  with revise_loop_eq [OF l xs ys ne] s
  show "self' = self\<lparr>domains := AList.update x (filter (\<lambda>w. supported w ix ys iy) xs) (domains self)\<rparr>"
    and "b \<longleftrightarrow> (\<exists>w\<in>set xs. \<not> supported w ix ys iy)"
    by simp_all
qed

lemma revise_total:
  assumes ov: "overlaps (crossword self) (x, y) = Some (Some (ix, iy))"
    and xs: "map_of (domains self) x = Some xs" and ys: "map_of (domains self) y = Some ys"
    and ne: "x \<noteq> y"
    and lx: "\<forall>w\<in>set xs. ix < length w" and ly: "\<forall>yw\<in>set ys. iy < length yw"
  shows "\<exists>r. revise self x y = Inr r"
proof -
  from lx have "\<forall>w\<in>set (remdups xs). ix < length w" by simp
  from revise_loop_total [OF xs ys ne _ _ this ly, of False]
  obtain r where "revise_loop x y ix iy (remdups xs) (domains self) False = Inr r" by auto
  with ov xs show ?thesis
    by (cases r) (simp add: revise_def lookup_Some)
qed

section \<open>Backtracking search\<close>

definition assignment_complete :: "CrosswordCreator \<Rightarrow> assignment \<Rightarrow> bool" where
  "assignment_complete self assignment =
     list_all (\<lambda>variable. map_of assignment variable \<noteq> None) (variables (crossword self))"

text \<open>
  \<open>consistent\<close>: the loop over \<open>assignment.items()\<close> and, inside it, the loop over the
  neighbours. Subscripting the overlap \<open>None\<close> raises \<open>TypeError\<close>.
\<close>

fun consistent_neighbors ::
  "Crossword \<Rightarrow> assignment \<Rightarrow> Variable \<Rightarrow> string \<Rightarrow> Variable list \<Rightarrow> error + bool" where
  "consistent_neighbors cw assignment variable value [] = Inr True"
| "consistent_neighbors cw assignment variable value (neighbor # rest) =
     (case map_of assignment neighbor of
        None \<Rightarrow> consistent_neighbors cw assignment variable value rest
      | Some neighbor_word \<Rightarrow>
          (case overlaps cw (variable, neighbor) of
             None \<Rightarrow> Inl KeyError
           | Some None \<Rightarrow> Inl TypeError
           | Some (Some (p, q)) \<Rightarrow>
               (case str_index value p of
                  Inl e \<Rightarrow> Inl e
                | Inr a \<Rightarrow>
                    (case str_index neighbor_word q of
                       Inl e \<Rightarrow> Inl e
                     | Inr b \<Rightarrow>
                         if a \<noteq> b then Inr False
                         else consistent_neighbors cw assignment variable value rest))))"

fun consistent_items :: "Crossword \<Rightarrow> assignment \<Rightarrow> assignment \<Rightarrow> error + bool" where
  "consistent_items cw assignment [] = Inr True"
| "consistent_items cw assignment ((variable, value) # rest) =
     (if var_length variable \<noteq> length value then Inr False
      else
        (case neighbors cw variable of
           Inl e \<Rightarrow> Inl e
         | Inr ns \<Rightarrow>
             (case consistent_neighbors cw assignment variable value ns of
                Inl e \<Rightarrow> Inl e
              | Inr ok \<Rightarrow> if ok then consistent_items cw assignment rest else Inr False)))"

definition consistent :: "CrosswordCreator \<Rightarrow> assignment \<Rightarrow> error + bool" where
  "consistent self assignment =
     (if length (remdups (map snd assignment)) < length assignment then Inr False
      else consistent_items (crossword self) assignment assignment)"

text \<open>
  \<open>order_domain_values\<close>: \<open>count_mismatch\<close> is the inner \<open>sum(1 for word in ... if ...)\<close>,
  \<open>count_conflicts_loop\<close> the loop over the neighbours. \<open>sorted\<close> computes the key of every
  element first and is stable, as \<open>sort_key\<close> is.
\<close>

fun count_mismatch :: "string \<Rightarrow> (nat \<times> nat) option \<Rightarrow> string list \<Rightarrow> error + nat" where
  "count_mismatch value ov [] = Inr 0"
| "count_mismatch value ov (word # rest) =
     (case ov of
        None \<Rightarrow> Inl TypeError
      | Some (p, q) \<Rightarrow>
          (case str_index word q of
             Inl e \<Rightarrow> Inl e
           | Inr a \<Rightarrow>
               (case str_index value p of
                  Inl e \<Rightarrow> Inl e
                | Inr b \<Rightarrow>
                    (case count_mismatch value ov rest of
                       Inl e \<Rightarrow> Inl e
                     | Inr n \<Rightarrow> Inr (if a \<noteq> b then n + 1 else n)))))"

fun count_conflicts_loop ::
  "CrosswordCreator \<Rightarrow> Variable \<Rightarrow> assignment \<Rightarrow> string \<Rightarrow> Variable list \<Rightarrow> nat \<Rightarrow> error + nat" where
  "count_conflicts_loop self var assignment value [] count = Inr count"
| "count_conflicts_loop self var assignment value (neighbor # rest) count =
     (if map_of assignment neighbor = None then
        (case overlaps (crossword self) (var, neighbor) of
           None \<Rightarrow> Inl KeyError
         | Some ov \<Rightarrow>
             (case lookup (domains self) neighbor of
                Inl e \<Rightarrow> Inl e
              | Inr ws \<Rightarrow>
                  (case count_mismatch value ov ws of
                     Inl e \<Rightarrow> Inl e
                   | Inr n \<Rightarrow> count_conflicts_loop self var assignment value rest (count + n))))
      else count_conflicts_loop self var assignment value rest count)"

definition count_conflicts :: "CrosswordCreator \<Rightarrow> Variable \<Rightarrow> assignment \<Rightarrow> string \<Rightarrow> error + nat" where
  "count_conflicts self var assignment value =
     (case neighbors (crossword self) var of
        Inl e \<Rightarrow> Inl e
      | Inr ns \<Rightarrow> count_conflicts_loop self var assignment value ns 0)"

fun with_keys :: "('a \<Rightarrow> error + 'k) \<Rightarrow> 'a list \<Rightarrow> error + ('k \<times> 'a) list" where
  "with_keys key [] = Inr []"
| "with_keys key (x # xs) =
     (case key x of
        Inl e \<Rightarrow> Inl e
      | Inr k \<Rightarrow> (case with_keys key xs of Inl e \<Rightarrow> Inl e | Inr kxs \<Rightarrow> Inr ((k, x) # kxs)))"

definition order_domain_values ::
  "CrosswordCreator \<Rightarrow> Variable \<Rightarrow> assignment \<Rightarrow> error + string list" where
  "order_domain_values self var assignment =
     (case lookup (domains self) var of
        Inl e \<Rightarrow> Inl e
      | Inr ws \<Rightarrow>
          (case with_keys (count_conflicts self var assignment) ws of
             Inl e \<Rightarrow> Inl e
           | Inr kws \<Rightarrow> Inr (map snd (sort_key fst kws))))"

text \<open>
  \<open>select_unassigned_variable\<close>: \<open>min\<close> raises \<open>ValueError\<close> on an empty list, compares
  the key tuples lexicographically and keeps the first minimal element.
\<close>

definition mrv :: "CrosswordCreator \<Rightarrow> Variable \<Rightarrow> error + (nat \<times> int)" where
  "mrv self variable =
     (case lookup (domains self) variable of
        Inl e \<Rightarrow> Inl e
      | Inr ws \<Rightarrow>
          (case neighbors (crossword self) variable of
             Inl e \<Rightarrow> Inl e
           | Inr ns \<Rightarrow> Inr (length ws, - int (length ns))))"

definition key_less :: "nat \<times> int \<Rightarrow> nat \<times> int \<Rightarrow> bool" where
  "key_less k1 k2 \<longleftrightarrow> fst k1 < fst k2 \<or> (fst k1 = fst k2 \<and> snd k1 < snd k2)"

fun min_loop :: "(nat \<times> int) \<times> 'a \<Rightarrow> ((nat \<times> int) \<times> 'a) list \<Rightarrow> 'a" where
  "min_loop best [] = snd best"
| "min_loop best (kx # rest) =
     (if key_less (fst kx) (fst best) then min_loop kx rest else min_loop best rest)"

definition select_unassigned_variable :: "CrosswordCreator \<Rightarrow> assignment \<Rightarrow> error + Variable" where
  "select_unassigned_variable self assignment =
     (let unassigned = filter (\<lambda>v. map_of assignment v = None) (variables (crossword self)) in
      case with_keys (mrv self) unassigned of
        Inl e \<Rightarrow> Inl e
      | Inr [] \<Rightarrow> Inl ValueError
      | Inr (kv # rest) \<Rightarrow> Inr (min_loop kv rest))"

text \<open>
  \<open>backtrack\<close>. \<open>try_values\<close> is the \<open>for value in ...\<close> loop, which returns the first
  result that is not \<open>None\<close>. Each recursive call has one more slot assigned.
\<close>

fun try_values :: "('a \<Rightarrow> error + 'b option) \<Rightarrow> 'a list \<Rightarrow> error + 'b option" where
  "try_values body [] = Inr None"
| "try_values body (value # rest) =
     (case body value of
        Inl e \<Rightarrow> Inl e
      | Inr (Some result) \<Rightarrow> Inr (Some result)
      | Inr None \<Rightarrow> try_values body rest)"

lemma try_values_cong [fundef_cong]:
  "xs = ys \<Longrightarrow> (\<And>x. x \<in> set ys \<Longrightarrow> f x = g x) \<Longrightarrow> try_values f xs = try_values g ys"
proof (induction ys arbitrary: xs)
  case Nil
  then show ?case by simp
next
  case (Cons y ys)
  then have "try_values f ys = try_values g ys" by simp
  with Cons.prems show ?case by (simp split: sum.splits option.splits)
qed

definition unassigned_count :: "CrosswordCreator \<Rightarrow> assignment \<Rightarrow> nat" where
  "unassigned_count self assignment =
     length (filter (\<lambda>v. map_of assignment v = None) (variables (crossword self)))"

lemma with_keys_Inr: "with_keys key xs = Inr kxs \<Longrightarrow> map snd kxs = xs"
  by (induction xs arbitrary: kxs) (auto split: sum.splits)

lemma min_loop_in: "min_loop best rest \<in> snd ` set (best # rest)"
  by (induction rest arbitrary: best) auto

lemma select_unassigned_variable_in:
  assumes "select_unassigned_variable self assignment = Inr var"
  shows "var \<in> set (variables (crossword self)) \<and> map_of assignment var = None"
proof -
  let ?un = "filter (\<lambda>v. map_of assignment v = None) (variables (crossword self))"
  from assms obtain kv rest where k: "with_keys (mrv self) ?un = Inr (kv # rest)"
    and v: "var = min_loop kv rest"
    by (auto simp: select_unassigned_variable_def Let_def split: sum.splits list.splits)
  from min_loop_in [of kv rest] v have "var \<in> set (map snd (kv # rest))" by simp
  with with_keys_Inr [OF k] have "var \<in> set ?un" by simp
  then show ?thesis by simp
qed

lemma unassigned_count_update:
  assumes "var \<in> set (variables (crossword self))" "map_of assignment var = None"
  shows "unassigned_count self (AList.update var value assignment) < unassigned_count self assignment"
proof -
  have "length (filter (\<lambda>v. ((map_of assignment)(var \<mapsto> value)) v = None) vs)
      \<le> length (filter (\<lambda>v. map_of assignment v = None) vs)" for vs
    by (induction vs) auto
  moreover have "var \<in> set vs \<Longrightarrow>
    length (filter (\<lambda>v. ((map_of assignment)(var \<mapsto> value)) v = None) vs)
      < length (filter (\<lambda>v. map_of assignment v = None) vs)" for vs
  proof (induction vs)
    case Nil
    then show ?case by simp
  next
    case (Cons u us)
    have le: "length (filter (\<lambda>v. ((map_of assignment)(var \<mapsto> value)) v = None) us)
      \<le> length (filter (\<lambda>v. map_of assignment v = None) us)"
      by (induction us) auto
    show ?case
    proof (cases "u = var")
      case True
      with assms(2) le show ?thesis by simp
    next
      case False
      with Cons have "length (filter (\<lambda>v. ((map_of assignment)(var \<mapsto> value)) v = None) us)
      < length (filter (\<lambda>v. map_of assignment v = None) us)" by simp
      with False show ?thesis by simp
    qed
  qed
  ultimately show ?thesis using assms(1)
    by (simp add: unassigned_count_def AList.update_conv')
qed

function backtrack :: "CrosswordCreator \<Rightarrow> assignment \<Rightarrow> error + assignment option" where
  "backtrack self assignment =
     (if assignment_complete self assignment then Inr (Some assignment)
      else
        (case select_unassigned_variable self assignment of
           Inl e \<Rightarrow> Inl e
         | Inr var \<Rightarrow>
             (case order_domain_values self var assignment of
                Inl e \<Rightarrow> Inl e
              | Inr vals \<Rightarrow>
                  try_values
                    (\<lambda>value.
                       (let new_assignment = AList.update var value assignment in
                        case consistent self new_assignment of
                          Inl e \<Rightarrow> Inl e
                        | Inr ok \<Rightarrow> if ok then backtrack self new_assignment else Inr None))
                    vals)))"
  by pat_completeness auto
termination
proof (relation "measure (\<lambda>(self, assignment). unassigned_count self assignment)")
  show "wf (measure (\<lambda>(self, assignment). unassigned_count self assignment))"
    by simp
next
  fix self assignment var vals val new_assignment ok
  assume "select_unassigned_variable self assignment = Inr var"
    and "new_assignment = AList.update var val assignment"
  with select_unassigned_variable_in [of self assignment var]
    unassigned_count_update [of var self assignment val]
  show "((self, new_assignment), self, assignment)
      \<in> measure (\<lambda>(self, assignment). unassigned_count self assignment)"
    by simp
qed

text \<open>
  \<open>solve\<close>. Besides the result and the final object, the model records the methods that
  \<open>solve\<close> called, in order, with the verdict that \<open>ac3\<close> returned (and \<open>solve\<close> drops).
\<close>

datatype call = Enforce_node_consistency | Ac3 bool | Backtrack

record solve_result =
  result :: "assignment option"
  final :: CrosswordCreator
  calls :: "call list"

definition solve :: "CrosswordCreator \<Rightarrow> error + solve_result" where
  "solve self =
     (case enforce_node_consistency self of
        Inl e \<Rightarrow> Inl e
      | Inr self1 \<Rightarrow>
          (case ac3 self1 None of
             Inl e \<Rightarrow> Inl e
           | Inr (ok, self2) \<Rightarrow>
               (case backtrack self2 [] of
                  Inl e \<Rightarrow> Inl e
                | Inr r \<Rightarrow>
                    Inr \<lparr>result = r, final = self2,
                         calls = [Enforce_node_consistency, Ac3 ok, Backtrack]\<rparr>)))"


section \<open>A small puzzle for concrete runs\<close>

text \<open>
  The structure \<open>_#\<close> / \<open>__\<close>: a Down slot and an Across slot of length 2 that cross at
  the second cell of the first and the first cell of the second.
\<close>

definition slot_down :: Variable where
  "slot_down = \<lparr>var_i = 0, var_j = 0, direction = DOWN, var_length = 2\<rparr>"

definition slot_across :: Variable where
  "slot_across = \<lparr>var_i = 1, var_j = 0, direction = ACROSS, var_length = 2\<rparr>"

definition small_crossword :: "string list \<Rightarrow> Crossword" where
  "small_crossword ws =
     \<lparr>height = 2, width = 2, structure' = [[True, False], [True, True]], words = ws,
      variables = [slot_down, slot_across],
      overlaps = [(slot_down, slot_across) \<mapsto> Some (1, 0),
                  (slot_across, slot_down) \<mapsto> Some (0, 1)]\<rparr>"

lemma slot_neq [simp]: "slot_down \<noteq> slot_across" "slot_across \<noteq> slot_down"
  by (simp_all add: slot_down_def slot_across_def)

lemma small_crossword_init:
  "distinct ws \<Longrightarrow> Crossword_init [''_#'', ''__''] ws pop_first = Inr (small_crossword ws)"
proof -
  assume d: "distinct ws"
  have "[''_#'', ''__''] \<noteq> []" by simp
  from Crossword_init_total [OF this] obtain cw
    where cw: "Crossword_init [''_#'', ''__''] ws pop_first = Inr cw" by blast
  have h: "height cw = 2" using Crossword_init_Inr(3) [OF cw] by simp
  have w: "width cw = 2" using Crossword_init_Inr(4) [OF cw] by simp
  have st: "structure' cw = [[True, False], [True, True]]"
    using Crossword_init_Inr(5) [OF cw] h w
    by (simp add: build_structure_def upt_conv_Cons)
  have vars: "variables cw = [slot_down, slot_across]"
    using Crossword_init_Inr(2) [OF cw] h w st
    by (simp add: scan_variables_def upt_conv_Cons scan_down_def scan_across_def set_add_def
        slot_down_def slot_across_def ACROSS_def DOWN_def)
  have o1: "overlap pop_first slot_down slot_across = Inr (Some (1, 0))"
    by (simp add: overlap_def cells_def upt_conv_Cons intersection_def pop_def pop_first_def
        slot_down_def slot_across_def ACROSS_def DOWN_def)
  have o2: "overlap pop_first slot_across slot_down = Inr (Some (0, 1))"
    by (simp add: overlap_def cells_def upt_conv_Cons intersection_def pop_def pop_first_def
        slot_down_def slot_across_def ACROSS_def DOWN_def)
  have ov: "overlaps cw = [(slot_down, slot_across) \<mapsto> Some (1, 0),
                  (slot_across, slot_down) \<mapsto> Some (0, 1)]"
    unfolding Crossword_init_Inr(7) [OF cw] vars
    using o1 o2 by (intro ext) (auto simp: prod_eq_iff)
  from d have ws: "words cw = ws" using Crossword_init_Inr(6) [OF cw] by simp
  have "cw = small_crossword ws"
    using h w st vars ov ws by (simp add: small_crossword_def)
  with cw show ?thesis by simp
qed

section \<open>Claims on node consistency and revision\<close>

text \<open>
  C7. \<open>enforce_node_consistency\<close> never raises; it leaves the crossword and the keys of
  \<open>self.domains\<close> as they were and replaces every domain by the list of its words whose
  length is the slot's length: every remaining word has that length, and every word of
  that length is still there.
\<close>

theorem enforce_node_consistency_exact:
  "\<exists>self'. enforce_node_consistency self = Inr self' \<and>
     crossword self' = crossword self \<and>
     map fst (domains self') = map fst (domains self) \<and>
     (\<forall>v. map_of (domains self') v =
        map_option (filter (\<lambda>w. length w = var_length v)) (map_of (domains self) v)) \<and>
     (\<forall>v ws'. map_of (domains self') v = Some ws' \<longrightarrow> (\<forall>w\<in>set ws'. length w = var_length v)) \<and>
     (\<forall>v ws. map_of (domains self) v = Some ws \<longrightarrow>
        (\<exists>ws'. map_of (domains self') v = Some ws' \<and>
           set ws' = {w \<in> set ws. length w = var_length v}))"
proof -
  from enforce_node_consistency_eq [of self] obtain self' where
    s: "enforce_node_consistency self = Inr self'" "crossword self' = crossword self"
      "map fst (domains self') = map fst (domains self)"
      "\<forall>v. map_of (domains self') v =
        map_option (filter (\<lambda>w. length w = var_length v)) (map_of (domains self) v)"
    by blast
  have "\<forall>v ws'. map_of (domains self') v = Some ws' \<longrightarrow> (\<forall>w\<in>set ws'. length w = var_length v)"
    using s(4) by auto
  moreover have "\<forall>v ws. map_of (domains self) v = Some ws \<longrightarrow>
        (\<exists>ws'. map_of (domains self') v = Some ws' \<and>
           set ws' = {w \<in> set ws. length w = var_length v})"
    using s(4) by auto
  ultimately show ?thesis using s by blast
qed

theorem enforce_node_consistency_exact_witness:
  "\<exists>self'. enforce_node_consistency
       \<lparr>crossword = small_crossword [''AB'', ''XYZ'', ''BC''],
        domains = [(slot_down, [''AB'', ''XYZ'', ''BC'']), (slot_across, [''AB'', ''XYZ'', ''BC''])]\<rparr>
       = Inr self' \<and>
     map_of (domains self') slot_down = Some [''AB'', ''BC''] \<and>
     map_of (domains self') slot_across = Some [''AB'', ''BC'']"
proof -
  let ?self = "\<lparr>crossword = small_crossword [''AB'', ''XYZ'', ''BC''],
        domains = [(slot_down, [''AB'', ''XYZ'', ''BC'']), (slot_across, [''AB'', ''XYZ'', ''BC''])]\<rparr>"
  from enforce_node_consistency_exact [of ?self] obtain self' where
    s: "enforce_node_consistency ?self = Inr self'"
      "\<forall>v. map_of (domains self') v =
        map_option (filter (\<lambda>w. length w = var_length v)) (map_of (domains ?self) v)"
    by blast
  from s(2) have "map_of (domains self') slot_down = Some [''AB'', ''BC'']"
    by (simp add: slot_down_def slot_across_def)
  moreover from s(2) have "map_of (domains self') slot_across = Some [''AB'', ''BC'']"
    by (simp add: slot_down_def slot_across_def)
  ultimately show ?thesis using s(1) by blast
qed

text \<open>
  C4. For slots \<open>x \<noteq> y\<close> that have domains: when \<open>overlaps[x, y]\<close> is \<open>None\<close>,
  \<open>revise(x, y)\<close> returns false and changes nothing. When it is \<open>(ix, iy)\<close>, a call that
  returns has removed from \<open>x\<close>'s domain exactly the unsupported words, has left every
  other domain, the keys and the crossword unchanged, and returns true if and only if a
  word was removed; and the call does return when the words of both domains are long
  enough for the two indices.
\<close>

theorem revise_removes_unsupported:
  assumes "map_of (domains self) x = Some xs" and "map_of (domains self) y = Some ys"
    and "x \<noteq> y"
  shows "(overlaps (crossword self) (x, y) = Some None \<longrightarrow> revise self x y = Inr (False, self)) \<and>
         (\<forall>ix iy. overlaps (crossword self) (x, y) = Some (Some (ix, iy)) \<longrightarrow>
            ((\<forall>w\<in>set xs. ix < length w) \<and> (\<forall>w\<in>set ys. iy < length w) \<longrightarrow>
               (\<exists>r. revise self x y = Inr r)) \<and>
            (\<forall>revised self'. revise self x y = Inr (revised, self') \<longrightarrow>
               crossword self' = crossword self \<and>
               map fst (domains self') = map fst (domains self) \<and>
               map_of (domains self') x = Some (filter (\<lambda>w. supported w ix ys iy) xs) \<and>
               (\<forall>v. v \<noteq> x \<longrightarrow> map_of (domains self') v = map_of (domains self) v) \<and>
               (revised \<longleftrightarrow> (\<exists>w\<in>set xs. \<not> supported w ix ys iy))))"
proof (intro conjI allI impI)
  assume "overlaps (crossword self) (x, y) = Some None"
  then show "revise self x y = Inr (False, self)"
    by (simp add: revise_def)
next
  fix ix iy
  assume ov: "overlaps (crossword self) (x, y) = Some (Some (ix, iy))"
    and "(\<forall>w\<in>set xs. ix < length w) \<and> (\<forall>w\<in>set ys. iy < length w)"
  then show "\<exists>r. revise self x y = Inr r"
    using revise_total [OF ov assms] by blast
next
  fix ix iy revised self'
  assume ov: "overlaps (crossword self) (x, y) = Some (Some (ix, iy))"
    and r: "revise self x y = Inr (revised, self')"
  note eq = revise_eq [OF ov assms r]
  from assms(1) have "x \<in> set (map fst (domains self))"
    by (metis map_of_eq_None_iff option.distinct(1) list.set_map)
  then have keys: "map fst (AList.update x (filter (\<lambda>w. supported w ix ys iy) xs) (domains self))
      = map fst (domains self)"
    by (simp add: AList.update_keys)
  show "crossword self' = crossword self" by (simp add: eq(1))
  show "map fst (domains self') = map fst (domains self)"
    using keys by (simp add: eq(1))
  show "map_of (domains self') x = Some (filter (\<lambda>w. supported w ix ys iy) xs)"
    by (simp add: eq(1) AList.update_conv')
  show "revised \<longleftrightarrow> (\<exists>w\<in>set xs. \<not> supported w ix ys iy)" by (rule eq(2))
  fix v assume "v \<noteq> x"
  then show "map_of (domains self') v = map_of (domains self) v"
    by (simp add: eq(1) AList.update_conv')
qed

theorem revise_removes_unsupported_witness:
  "\<exists>self'. revise \<lparr>crossword = small_crossword [],
                 domains = [(slot_down, [''AB'', ''BQ'']), (slot_across, [''BC''])]\<rparr>
          slot_down slot_across = Inr (True, self') \<and>
     map_of (domains self') slot_down = Some [''AB''] \<and>
     map_of (domains self') slot_across = Some [''BC''] \<and>
     supported ''AB'' 1 [''BC''] 0 \<and> \<not> supported ''BQ'' 1 [''BC''] 0"
proof -
  let ?self = "\<lparr>crossword = small_crossword [],
                 domains = [(slot_down, [''AB'', ''BQ'']), (slot_across, [''BC''])]\<rparr>"
  have x: "map_of (domains ?self) slot_down = Some [''AB'', ''BQ'']" by simp
  have y: "map_of (domains ?self) slot_across = Some [''BC'']" by simp
  have ov: "overlaps (crossword ?self) (slot_down, slot_across) = Some (Some (1, 0))"
    by (simp add: small_crossword_def)
  have len: "(\<forall>w\<in>set [''AB'', ''BQ'']. 1 < length w) \<and> (\<forall>w\<in>set [''BC'']. 0 < length w)"
    by simp
  have s1: "supported ''AB'' 1 [''BC''] 0" and s2: "\<not> supported ''BQ'' 1 [''BC''] 0"
    by (simp_all add: supported_def)
  note th = revise_removes_unsupported [OF x y slot_neq(1), THEN conjunct2, rule_format, OF ov]
  from th [THEN conjunct1, rule_format, OF len]
  obtain r where "revise ?self slot_down slot_across = Inr r" by blast
  then obtain revised self' where r: "revise ?self slot_down slot_across = Inr (revised, self')"
    by (cases r) auto
  note c = th [THEN conjunct2, rule_format, OF r]
  from c have c3: "map_of (domains self') slot_down =
      Some (filter (\<lambda>w. supported w 1 [''BC''] 0) [''AB'', ''BQ''])"
    by (elim conjE)
  from c have c4: "\<forall>v. v \<noteq> slot_down \<longrightarrow> map_of (domains self') v = map_of (domains ?self) v"
    by (elim conjE)
  from c have c5: "revised \<longleftrightarrow> (\<exists>w\<in>set [''AB'', ''BQ'']. \<not> supported w 1 [''BC''] 0)"
    by (elim conjE)
  from c5 s2 have rev: "revised" by simp
  from c3 s1 s2 have a: "map_of (domains self') slot_down = Some [''AB'']" by simp
  from c4 have b: "map_of (domains self') slot_across = Some [''BC'']" by simp
  from r rev have r': "revise ?self slot_down slot_across = Inr (True, self')" by simp
  show ?thesis
    by (rule exI [of _ self']) (intro conjI r' a b s1 s2)
qed

section \<open>Character indexing stays in bounds\<close>

lemma neighbors_loop_error: "neighbors_loop cw var vs = Inl e \<Longrightarrow> e = KeyError"
  by (induction vs) (auto split: if_splits option.splits sum.splits)

lemma neighbors_error: "neighbors cw var = Inl e \<Longrightarrow> e = KeyError"
  by (auto simp: neighbors_def split: sum.splits dest: neighbors_loop_error)

lemma domain_remove_error: "domain_remove doms x w = Inl e \<Longrightarrow> e = KeyError"
  by (auto simp: domain_remove_def set_remove_def split: sum.splits if_splits)

lemma with_keys_error:
  "with_keys key xs = Inl e \<Longrightarrow> \<exists>x\<in>set xs. key x = Inl e"
  by (induction xs) (auto split: sum.splits)

lemma revise_loop_no_IndexError:
  assumes "\<forall>w\<in>set cs. ix < length w"
    and "\<forall>ys. map_of doms y = Some ys \<longrightarrow> (\<forall>yw\<in>set ys. iy < length yw)"
  shows "revise_loop x y ix iy cs doms revised \<noteq> Inl IndexError"
  using assms
proof (induction cs arbitrary: doms revised)
  case Nil
  then show ?case by simp
next
  case (Cons c cs)
  show ?case
  proof (cases "map_of doms y")
    case None
    then show ?thesis by (simp add: lookup_None)
  next
    case (Some ys)
    with Cons.prems have "ix < length c" "\<forall>yw\<in>set ys. iy < length yw" by simp_all
    from any_match_total [OF this] obtain found where found: "any_match c ix ys iy = Inr found"
      by blast
    show ?thesis
    proof (cases found)
      case True
      with Cons.prems Some found Cons.IH [of doms revised] show ?thesis
        by (simp add: lookup_Some)
    next
      case False
      show ?thesis
      proof (cases "domain_remove doms x c")
        case (Inl e)
        with domain_remove_error [OF Inl] False Some found show ?thesis
          by (simp add: lookup_Some)
      next
        case (Inr d1)
        then obtain xs where d1: "d1 = AList.update x (removeAll c xs) doms"
          and xs: "map_of doms x = Some xs"
          by (auto simp: domain_remove_Inr)
        have "\<forall>ys. map_of d1 y = Some ys \<longrightarrow> (\<forall>yw\<in>set ys. iy < length yw)"
          using Cons.prems(2) xs by (auto simp: d1 AList.update_conv' split: if_splits)
        with Cons.prems(1) have "revise_loop x y ix iy cs d1 True \<noteq> Inl IndexError"
          by (intro Cons.IH) auto
        with Inr False Some found show ?thesis
          by (simp add: lookup_Some)
      qed
    qed
  qed
qed

lemma revise_no_IndexError:
  assumes dom: "\<forall>v ws. map_of (domains self) v = Some ws \<longrightarrow> (\<forall>w\<in>set ws. length w = var_length v)"
    and ov: "\<forall>a b p q. overlaps (crossword self) (a, b) = Some (Some (p, q)) \<longrightarrow>
               p < var_length a \<and> q < var_length b"
  shows "revise self x y \<noteq> Inl IndexError"
proof (cases "overlaps (crossword self) (x, y)")
  case None
  then show ?thesis by (simp add: revise_def)
next
  case (Some o1)
  show ?thesis
  proof (cases o1)
    case None
    with Some show ?thesis by (simp add: revise_def)
  next
    case (Some pq)
    obtain ix iy where pq: "pq = (ix, iy)" by (cases pq)
    with Some \<open>overlaps (crossword self) (x, y) = Some o1\<close>
    have o: "overlaps (crossword self) (x, y) = Some (Some (ix, iy))" by simp
    with ov have lt: "ix < var_length x" "iy < var_length y" by blast+
    show ?thesis
    proof (cases "map_of (domains self) x")
      case None
      with o show ?thesis by (simp add: revise_def lookup_None)
    next
      case (Some xs)
      with dom lt have a: "\<forall>w\<in>set (remdups xs). ix < length w" by auto
      from dom lt have b: "\<forall>ys. map_of (domains self) y = Some ys \<longrightarrow> (\<forall>yw\<in>set ys. iy < length yw)"
        by auto
      from revise_loop_no_IndexError [OF a b, of x False]
      show ?thesis using o Some
        by (auto simp: revise_def lookup_Some split: sum.splits)
    qed
  qed
qed

lemma consistent_neighbors_no_IndexError:
  assumes "\<forall>v w. (v, w) \<in> set assignment \<longrightarrow> length w = var_length v"
    and "\<forall>a b p q. overlaps cw (a, b) = Some (Some (p, q)) \<longrightarrow> p < var_length a \<and> q < var_length b"
    and "length val = var_length variable"
  shows "consistent_neighbors cw assignment variable val ns \<noteq> Inl IndexError"
proof (induction ns)
  case Nil
  then show ?case by simp
next
  case (Cons n ns)
  show ?case
  proof (cases "map_of assignment n")
    case None
    with Cons show ?thesis by simp
  next
    case (Some nw)
    then have "(n, nw) \<in> set assignment" by (rule map_of_SomeD)
    with assms(1) have nw: "length nw = var_length n" by blast
    show ?thesis
    proof (cases "overlaps cw (variable, n)")
      case None
      with Some show ?thesis by simp
    next
      case o: (Some o1)
      show ?thesis
      proof (cases o1)
        case None
        with Some o show ?thesis by simp
      next
        case (Some pq)
        obtain p q where pq: "pq = (p, q)" by (cases pq)
        with Some o assms(2) have "p < var_length variable" "q < var_length n" by blast+
        with nw assms(3) Some o pq \<open>map_of assignment n = Some nw\<close> Cons show ?thesis
          by (simp add: str_index_def)
      qed
    qed
  qed
qed

lemma consistent_items_no_IndexError:
  assumes "\<forall>v w. (v, w) \<in> set assignment \<longrightarrow> length w = var_length v"
    and "\<forall>a b p q. overlaps cw (a, b) = Some (Some (p, q)) \<longrightarrow> p < var_length a \<and> q < var_length b"
  shows "consistent_items cw assignment items \<noteq> Inl IndexError"
proof (induction items)
  case Nil
  then show ?case by simp
next
  case (Cons item items)
  obtain variable val where item: "item = (variable, val)" by (cases item)
  show ?case
  proof (cases "var_length variable \<noteq> length val")
    case True
    with item show ?thesis by simp
  next
    case False
    then have len: "length val = var_length variable" by simp
    show ?thesis
    proof (cases "neighbors cw variable")
      case (Inl e)
      with neighbors_error [OF Inl] item False show ?thesis by simp
    next
      case (Inr ns)
      from consistent_neighbors_no_IndexError [OF assms len, of ns] Cons Inr item False
      show ?thesis by (auto split: sum.splits)
    qed
  qed
qed

lemma consistent_no_IndexError:
  assumes "\<forall>v w. (v, w) \<in> set assignment \<longrightarrow> length w = var_length v"
    and "\<forall>a b p q. overlaps (crossword self) (a, b) = Some (Some (p, q)) \<longrightarrow>
           p < var_length a \<and> q < var_length b"
  shows "consistent self assignment \<noteq> Inl IndexError"
  using consistent_items_no_IndexError [OF assms] by (simp add: consistent_def)

lemma count_mismatch_no_IndexError:
  assumes "\<forall>p q. ov = Some (p, q) \<longrightarrow> p < length val \<and> (\<forall>w\<in>set ws. q < length w)"
  shows "count_mismatch val ov ws \<noteq> Inl IndexError"
  using assms
proof (induction ws)
  case Nil
  then show ?case by simp
next
  case (Cons w ws)
  show ?case
  proof (cases ov)
    case None
    then show ?thesis by simp
  next
    case (Some pq)
    obtain p q where pq: "pq = (p, q)" by (cases pq)
    with Some Cons.prems have "p < length val" "q < length w" by simp_all
    moreover from Cons have "count_mismatch val ov ws \<noteq> Inl IndexError" by simp
    ultimately show ?thesis using Some pq
      by (auto simp: str_index_def split: sum.splits)
  qed
qed

lemma count_conflicts_loop_no_IndexError:
  assumes dom: "\<forall>v ws. map_of (domains self) v = Some ws \<longrightarrow> (\<forall>w\<in>set ws. length w = var_length v)"
    and ov: "\<forall>a b p q. overlaps (crossword self) (a, b) = Some (Some (p, q)) \<longrightarrow>
               p < var_length a \<and> q < var_length b"
    and len: "length val = var_length var"
  shows "count_conflicts_loop self var assignment val ns count \<noteq> Inl IndexError"
proof (induction ns arbitrary: count)
  case Nil
  then show ?case by simp
next
  case (Cons n ns)
  show ?case
  proof (cases "map_of assignment n = None")
    case False
    then have "count_conflicts_loop self var assignment val (n # ns) count =
        count_conflicts_loop self var assignment val ns count"
      by auto
    with Cons show ?thesis by simp
  next
    case True
    show ?thesis
    proof (cases "overlaps (crossword self) (var, n)")
      case None
      with True show ?thesis by simp
    next
      case (Some o1)
      show ?thesis
      proof (cases "map_of (domains self) n")
        case None
        with True Some show ?thesis by (simp add: lookup_None)
      next
        case ws: (Some ws)
        have "\<forall>p q. o1 = Some (p, q) \<longrightarrow> p < length val \<and> (\<forall>w\<in>set ws. q < length w)"
          using ov Some dom ws len by auto
        from count_mismatch_no_IndexError [OF this] Cons True Some ws show ?thesis
          by (auto simp: lookup_Some split: sum.splits)
      qed
    qed
  qed
qed

lemma count_conflicts_no_IndexError:
  assumes dom: "\<forall>v ws. map_of (domains self) v = Some ws \<longrightarrow> (\<forall>w\<in>set ws. length w = var_length v)"
    and ov: "\<forall>a b p q. overlaps (crossword self) (a, b) = Some (Some (p, q)) \<longrightarrow>
               p < var_length a \<and> q < var_length b"
    and len: "length val = var_length var"
  shows "count_conflicts self var assignment val \<noteq> Inl IndexError"
proof (cases "neighbors (crossword self) var")
  case (Inl e)
  with neighbors_error [OF Inl] show ?thesis by (simp add: count_conflicts_def)
next
  case (Inr ns)
  with count_conflicts_loop_no_IndexError [OF assms, of assignment ns 0] show ?thesis
    by (simp add: count_conflicts_def)
qed

lemma order_domain_values_no_IndexError:
  assumes dom: "\<forall>v ws. map_of (domains self) v = Some ws \<longrightarrow> (\<forall>w\<in>set ws. length w = var_length v)"
    and ov: "\<forall>a b p q. overlaps (crossword self) (a, b) = Some (Some (p, q)) \<longrightarrow>
               p < var_length a \<and> q < var_length b"
  shows "order_domain_values self var assignment \<noteq> Inl IndexError"
proof (cases "map_of (domains self) var")
  case None
  then show ?thesis by (simp add: order_domain_values_def lookup_None)
next
  case (Some ws)
  have "with_keys (count_conflicts self var assignment) ws \<noteq> Inl IndexError"
  proof
    assume "with_keys (count_conflicts self var assignment) ws = Inl IndexError"
    from with_keys_error [OF this] obtain w where w: "w \<in> set ws"
      "count_conflicts self var assignment w = Inl IndexError" by blast
    from dom Some w(1) have "length w = var_length var" by blast
    from count_conflicts_no_IndexError [OF dom ov this] w(2) show False by blast
  qed
  with Some show ?thesis
    by (auto simp: order_domain_values_def lookup_Some split: sum.splits)
qed

text \<open>
  C10. When every word of every domain and every assigned word has the length of its
  slot, and every recorded overlap \<open>(ix, iy)\<close> of a pair of slots lies within the lengths
  of the two slots, then \<open>revise\<close>, \<open>order_domain_values\<close> and \<open>consistent\<close> never raise
  \<open>IndexError\<close>: every string subscript they evaluate is in range.
\<close>

theorem indexing_in_bounds:
  assumes "\<forall>v ws. map_of (domains self) v = Some ws \<longrightarrow> (\<forall>w\<in>set ws. length w = var_length v)"
    and "\<forall>v w. (v, w) \<in> set assignment \<longrightarrow> length w = var_length v"
    and "\<forall>a b p q. overlaps (crossword self) (a, b) = Some (Some (p, q)) \<longrightarrow>
           p < var_length a \<and> q < var_length b"
  shows "revise self x y \<noteq> Inl IndexError \<and>
         order_domain_values self var assignment \<noteq> Inl IndexError \<and>
         consistent self assignment \<noteq> Inl IndexError"
  using revise_no_IndexError [OF assms(1,3)] order_domain_values_no_IndexError [OF assms(1,3)]
    consistent_no_IndexError [OF assms(2,3)]
  by blast

lemma small_crossword_overlaps:
  "overlaps (small_crossword ws) (a, b) = Some (Some (p, q)) \<Longrightarrow>
     p < var_length a \<and> q < var_length b"
  by (auto simp: small_crossword_def slot_down_def slot_across_def split: if_splits)

text \<open>
  The hypotheses hold on the small puzzle; without them (a one-letter word in the domain
  of a slot of length 2) \<open>revise\<close> does raise \<open>IndexError\<close>.
\<close>

theorem indexing_in_bounds_witness:
  "revise \<lparr>crossword = small_crossword [], domains = [(slot_down, [''AB'', ''BQ'']), (slot_across, [''BC''])]\<rparr>
     slot_down slot_across \<noteq> Inl IndexError \<and>
   order_domain_values
     \<lparr>crossword = small_crossword [], domains = [(slot_down, [''AB'', ''BQ'']), (slot_across, [''BC''])]\<rparr>
     slot_across [(slot_down, ''AB'')] \<noteq> Inl IndexError \<and>
   consistent
     \<lparr>crossword = small_crossword [], domains = [(slot_down, [''AB'', ''BQ'']), (slot_across, [''BC''])]\<rparr>
     [(slot_down, ''AB'')] \<noteq> Inl IndexError \<and>
   revise \<lparr>crossword = small_crossword [], domains = [(slot_down, [''AB'', ''B'']), (slot_across, [''BC''])]\<rparr>
     slot_down slot_across = Inl IndexError"
proof -
  let ?self = "\<lparr>crossword = small_crossword [],
                 domains = [(slot_down, [''AB'', ''BQ'']), (slot_across, [''BC''])]\<rparr>"
  have 1: "\<forall>v ws. map_of (domains ?self) v = Some ws \<longrightarrow> (\<forall>w\<in>set ws. length w = var_length v)"
    by (auto simp: slot_down_def slot_across_def split: if_splits)
  have 2: "\<forall>v w. (v, w) \<in> set [(slot_down, ''AB'')] \<longrightarrow> length w = var_length v"
    by (simp add: slot_down_def)
  have 3: "\<forall>a b p q. overlaps (crossword ?self) (a, b) = Some (Some (p, q)) \<longrightarrow>
           p < var_length a \<and> q < var_length b"
    using small_crossword_overlaps by simp
  have 4: "revise \<lparr>crossword = small_crossword [], domains = [(slot_down, [''AB'', ''B'']), (slot_across, [''BC''])]\<rparr>
     slot_down slot_across = Inl IndexError"
    by (simp add: revise_def small_crossword_def lookup_def str_index_def domain_remove_def set_remove_def)
  from indexing_in_bounds [OF 1 2 3, of slot_down slot_across slot_across] 4
  show ?thesis by blast
qed

section \<open>What \<open>solve\<close> returns\<close>

text \<open>The equation of \<open>backtrack\<close> is unfolded by hand, one call at a time.\<close>

declare backtrack.simps [simp del]

lemma try_values_Some:
  "try_values body xs = Inr (Some r) \<Longrightarrow> \<exists>x\<in>set xs. body x = Inr (Some r)"
  by (induction xs) (auto split: sum.splits option.splits)

lemma backtrack_sound:
  "backtrack self a0 = Inr (Some a) \<Longrightarrow>
     assignment_complete self a \<and> (a = a0 \<or> consistent self a = Inr True) \<and>
     (distinct (map fst a0) \<longrightarrow> distinct (map fst a))"
proof (induction self a0 rule: backtrack.induct)
  case (1 self assignment)
  show ?case
  proof (cases "assignment_complete self assignment")
    case True
    with "1.prems" show ?thesis by (simp add: backtrack.simps [of self assignment])
  next
    case False
    with "1.prems" obtain var vals where
      var: "select_unassigned_variable self assignment = Inr var"
      and vals: "order_domain_values self var assignment = Inr vals"
      and tv: "try_values
                    (\<lambda>value.
                       (let new_assignment = AList.update var value assignment in
                        case consistent self new_assignment of
                          Inl e \<Rightarrow> Inl e
                        | Inr ok \<Rightarrow> if ok then backtrack self new_assignment else Inr None))
                    vals = Inr (Some a)"
      by (auto simp: backtrack.simps [of self assignment] split: sum.splits)
    from try_values_Some [OF tv] obtain val where val: "val \<in> set vals"
      and cb: "(case consistent self (AList.update var val assignment) of
                          Inl e \<Rightarrow> Inl e
                        | Inr ok \<Rightarrow> if ok then backtrack self (AList.update var val assignment) else Inr None) = Inr (Some a)"
      unfolding Let_def by blast
    from cb have c: "consistent self (AList.update var val assignment) = Inr True"
      and b: "backtrack self (AList.update var val assignment) = Inr (Some a)"
      by (auto split: sum.splits if_splits)
    have True: "True" by simp
    from "1.IH" [OF False var vals val refl c True b]
    have ih1: "assignment_complete self a"
      and ih2: "a = AList.update var val assignment \<or> consistent self a = Inr True"
      and ih3: "distinct (map fst (AList.update var val assignment)) \<longrightarrow> distinct (map fst a)"
      by blast+
    from ih2 c have "consistent self a = Inr True" by blast
    moreover from ih3 have "distinct (map fst assignment) \<longrightarrow> distinct (map fst a)"
      using AList.distinct_update [of assignment var val] by blast
    ultimately show ?thesis using ih1 by blast
  qed
qed

lemma consistent_neighbors_True:
  assumes "consistent_neighbors cw a v w ns = Inr True"
    and "n \<in> set ns" and "map_of a n = Some nw"
  shows "\<exists>p q. overlaps cw (v, n) = Some (Some (p, q)) \<and>
           p < length w \<and> q < length nw \<and> w ! p = nw ! q"
  using assms
proof (induction ns)
  case Nil
  then show ?case by simp
next
  case (Cons m ns)
  show ?case
  proof (cases "map_of a m")
    case None
    with Cons show ?thesis by auto
  next
    case (Some mw)
    with Cons.prems(1) obtain p q where o: "overlaps cw (v, m) = Some (Some (p, q))"
      and i: "p < length w" "q < length mw" "w ! p = mw ! q"
      and rest: "consistent_neighbors cw a v w ns = Inr True"
      by (auto simp: str_index_def split: option.splits sum.splits if_splits)
    show ?thesis
    proof (cases "n = m")
      case True
      with Some Cons.prems(3) o i show ?thesis by simp
    next
      case False
      with Cons.prems(2) have "n \<in> set ns" by simp
      from Cons.IH [OF rest this Cons.prems(3)] show ?thesis .
    qed
  qed
qed

lemma consistent_items_True:
  assumes "consistent_items cw a items = Inr True" and "(v, w) \<in> set items"
  shows "var_length v = length w \<and>
         (\<exists>ns. neighbors cw v = Inr ns \<and> consistent_neighbors cw a v w ns = Inr True)"
  using assms
proof (induction items)
  case Nil
  then show ?case by simp
next
  case (Cons item items)
  obtain u uw where item: "item = (u, uw)" by (cases item)
  from Cons.prems(1) item obtain ns where
    len: "var_length u = length uw" and ns: "neighbors cw u = Inr ns"
    and cn: "consistent_neighbors cw a u uw ns = Inr True"
    and rest: "consistent_items cw a items = Inr True"
    by (auto split: if_splits sum.splits)
  show ?case
  proof (cases "(v, w) = (u, uw)")
    case True
    with len ns cn show ?thesis by auto
  next
    case False
    with Cons.prems(2) item have "(v, w) \<in> set items" by auto
    from Cons.IH [OF rest this] show ?thesis .
  qed
qed

lemma consistent_True:
  assumes "consistent self a = Inr True"
  shows "distinct (map snd a)"
    and "(v, w) \<in> set a \<Longrightarrow> var_length v = length w"
    and "(v, w) \<in> set a \<Longrightarrow> neighbors (crossword self) v = Inr ns \<Longrightarrow> n \<in> set ns \<Longrightarrow>
         map_of a n = Some nw \<Longrightarrow>
         \<exists>p q. overlaps (crossword self) (v, n) = Some (Some (p, q)) \<and>
           p < length w \<and> q < length nw \<and> w ! p = nw ! q"
proof -
  from assms have len: "\<not> length (remdups (map snd a)) < length a"
    and items: "consistent_items (crossword self) a a = Inr True"
    by (auto simp: consistent_def split: if_splits)
  from len have "length (remdups (map snd a)) = length (map snd a)"
    using length_remdups_leq [of "map snd a"] by simp
  then have "remdups (map snd a) = map snd a" by (simp only: length_remdups_eq)
  then show "distinct (map snd a)" by (metis distinct_remdups)
  show "var_length v = length w" if "(v, w) \<in> set a"
    using consistent_items_True [OF items that] by simp
  show "\<exists>p q. overlaps (crossword self) (v, n) = Some (Some (p, q)) \<and>
           p < length w \<and> q < length nw \<and> w ! p = nw ! q"
    if "(v, w) \<in> set a" "neighbors (crossword self) v = Inr ns" "n \<in> set ns"
      "map_of a n = Some nw"
    using consistent_items_True [OF items that(1)] that(2-4) consistent_neighbors_True
    by auto
qed

lemma revise_crossword: "revise self x y = Inr (b, self') \<Longrightarrow> crossword self' = crossword self"
  by (auto simp: revise_def split: option.splits sum.splits)

lemma ac3_loop_crossword:
  "ac3_loop self arcs = Inr (ok, self') \<Longrightarrow> crossword self' = crossword self"
proof (induction self arcs rule: ac3_loop.induct)
  case (1 self)
  then show ?case by simp
next
  case (2 self x y arcs)
  from "2.prems" obtain revised s1 where r: "revise self x y = Inr (revised, s1)"
    by (auto split: sum.splits)
  note c = revise_crossword [OF r]
  show ?case
  proof (cases revised)
    case False
    with "2.prems" r have "ac3_loop s1 arcs = Inr (ok, self')" by simp
    from "2.IH"(2) [OF r refl False this] c show ?thesis by simp
  next
    case True
    show ?thesis
    proof (cases "lookup (domains s1) x")
      case (Inl e)
      with "2.prems" r True show ?thesis by simp
    next
      case (Inr ws)
      show ?thesis
      proof (cases "ws = []")
        case True
        with "2.prems" r \<open>revised\<close> Inr c show ?thesis by auto
      next
        case False
        with "2.prems" r \<open>revised\<close> Inr obtain ns where ns: "neighbors (crossword s1) x = Inr ns"
          and l: "ac3_loop s1 (arcs @ map (\<lambda>neighbor. (neighbor, x)) (removeAll y ns)) = Inr (ok, self')"
          by (auto split: sum.splits)
        from "2.IH"(1) [OF r refl \<open>revised\<close> Inr False ns l] c show ?thesis by simp
      qed
    qed
  qed
qed

lemma ac3_crossword: "ac3 self arcs = Inr (ok, self') \<Longrightarrow> crossword self' = crossword self"
  by (auto simp: ac3_def split: option.splits sum.splits dest: ac3_loop_crossword)

lemma enforce_node_consistency_crossword:
  "enforce_node_consistency self = Inr self' \<Longrightarrow> crossword self' = crossword self"
  by (auto simp: enforce_node_consistency_def split: sum.splits)

lemma solve_Inr:
  assumes "solve self = Inr r"
  shows "\<exists>self1 ok. enforce_node_consistency self = Inr self1 \<and>
           ac3 self1 None = Inr (ok, final r) \<and>
           backtrack (final r) [] = Inr (result r) \<and>
           calls r = [Enforce_node_consistency, Ac3 ok, Backtrack] \<and>
           crossword (final r) = crossword self"
proof -
  from assms obtain self1 ok self2 res where
    e: "enforce_node_consistency self = Inr self1"
    and a: "ac3 self1 None = Inr (ok, self2)"
    and b: "backtrack self2 [] = Inr res"
    and r: "r = \<lparr>result = res, final = self2, calls = [Enforce_node_consistency, Ac3 ok, Backtrack]\<rparr>"
    by (auto simp: solve_def split: sum.splits)
  from enforce_node_consistency_crossword [OF e] ac3_crossword [OF a]
  have "crossword self2 = crossword self" by simp
  with e a b r show ?thesis by simp
qed

text \<open>
  \<open>neighbors\<close> returns exactly the slots other than \<open>var\<close> whose overlap with \<open>var\<close> is an
  index pair; the keys of a returned assignment are slots; and in a built crossword two
  slots that have a cell in common have that cell's two positions as their overlap.
\<close>

lemma neighbors_loop_set:
  "neighbors_loop cw var vs = Inr ns \<Longrightarrow>
     set ns = {n \<in> set vs. n \<noteq> var \<and> (\<exists>pq. overlaps cw (n, var) = Some (Some pq))}"
proof (induction vs arbitrary: ns)
  case Nil
  then show ?case by simp
next
  case (Cons v vs)
  show ?case
  proof (cases "v = var")
    case True
    with Cons.prems have "neighbors_loop cw var vs = Inr ns" by simp
    from Cons.IH [OF this] True show ?thesis by auto
  next
    case False
    with Cons.prems obtain ov ns0 where ov: "overlaps cw (v, var) = Some ov"
      and l: "neighbors_loop cw var vs = Inr ns0"
      and ns: "ns = (if ov \<noteq> None then v # ns0 else ns0)"
      by (auto split: option.splits sum.splits)
    from Cons.IH [OF l] ov ns False show ?thesis by auto
  qed
qed

lemma neighbors_set:
  assumes "neighbors cw var = Inr ns"
  shows "set ns = {n \<in> set (variables cw). n \<noteq> var \<and> (\<exists>pq. overlaps cw (n, var) = Some (Some pq))}"
proof -
  from assms obtain ns0 where l: "neighbors_loop cw var (variables cw) = Inr ns0"
    and ns: "ns = remdups ns0"
    by (auto simp: neighbors_def split: sum.splits)
  from neighbors_loop_set [OF l] ns show ?thesis by simp
qed

lemma backtrack_keys:
  "backtrack self a0 = Inr (Some a) \<Longrightarrow> fst ` set a0 \<subseteq> set (variables (crossword self)) \<Longrightarrow>
     fst ` set a \<subseteq> set (variables (crossword self))"
proof (induction self a0 rule: backtrack.induct)
  case (1 self assignment)
  show ?case
  proof (cases "assignment_complete self assignment")
    case True
    with "1.prems" show ?thesis by (simp add: backtrack.simps [of self assignment])
  next
    case False
    with "1.prems"(1) obtain var vals where
      var: "select_unassigned_variable self assignment = Inr var"
      and vals: "order_domain_values self var assignment = Inr vals"
      and tv: "try_values
                    (\<lambda>value.
                       (let new_assignment = AList.update var value assignment in
                        case consistent self new_assignment of
                          Inl e \<Rightarrow> Inl e
                        | Inr ok \<Rightarrow> if ok then backtrack self new_assignment else Inr None))
                    vals = Inr (Some a)"
      by (auto simp: backtrack.simps [of self assignment] split: sum.splits)
    from try_values_Some [OF tv] obtain val where val: "val \<in> set vals"
      and b: "(let new_assignment = AList.update var val assignment in
                        case consistent self new_assignment of
                          Inl e \<Rightarrow> Inl e
                        | Inr ok \<Rightarrow> if ok then backtrack self new_assignment else Inr None) = Inr (Some a)"
      by blast
    from b obtain ok where c: "consistent self (AList.update var val assignment) = Inr ok"
      unfolding Let_def by (auto split: sum.splits)
    with b have ok: ok and b': "backtrack self (AList.update var val assignment) = Inr (Some a)"
      unfolding Let_def by (auto split: if_splits)
    from select_unassigned_variable_in [OF var] "1.prems"(2)
    have k: "fst ` set (AList.update var val assignment) \<subseteq> set (variables (crossword self))"
      by (auto simp: AList.dom_update)
    have True: "True" by simp
    from "1.IH" [OF False var vals val refl c ok b' k] show ?thesis .
  qed
qed

text \<open>
  C1. When \<open>solve()\<close> returns an assignment (and not \<open>None\<close>), that assignment gives a
  word to every slot of the crossword and to nothing else, no two slots have the same
  word, every word has the length of its slot, and for every two assigned slots whose
  entry in the overlap table is an index pair the two words are long enough and agree at
  those indices: the pairs are taken from the overlap table, not from what \<open>neighbors\<close>
  returns. On a crossword built by \<open>Crossword.__init__\<close> this means that a cell of
  the grid gets the same letter from every slot that runs through it. So \<open>solve()\<close>
  never returns a partial or inconsistent assignment.
\<close>

theorem solve_returns_consistent:
  assumes "solve self = Inr r" and "result r = Some a"
  shows "(\<forall>v\<in>set (variables (crossword self)). \<exists>w. map_of a v = Some w) \<and>
         set (map fst a) = set (variables (crossword self)) \<and>
         distinct (map fst a) \<and> distinct (map snd a) \<and>
         (\<forall>v v' w. map_of a v = Some w \<and> map_of a v' = Some w \<longrightarrow> v = v') \<and>
         (\<forall>v w. map_of a v = Some w \<longrightarrow> length w = var_length v) \<and>
         (\<forall>v w n nw pq. map_of a v = Some w \<and> map_of a n = Some nw \<and> v \<noteq> n \<and>
              overlaps (crossword self) (n, v) = Some (Some pq) \<longrightarrow>
            (\<exists>p q. overlaps (crossword self) (v, n) = Some (Some (p, q)) \<and>
               p < length w \<and> q < length nw \<and> w ! p = nw ! q)) \<and>
         (\<forall>contents word_lines choice v w n nw i j.
            Crossword_init contents word_lines choice = Inr (crossword self) \<and>
            map_of a v = Some w \<and> map_of a n = Some nw \<and>
            i < length w \<and> j < length nw \<and> cells v ! i = cells n ! j \<longrightarrow> w ! i = nw ! j)"
proof -
  from solve_Inr [OF assms(1)] assms(2) have b: "backtrack (final r) [] = Inr (Some a)"
    and cw: "crossword (final r) = crossword self" by auto
  from backtrack_sound [OF b] have complete: "assignment_complete (final r) a"
    and cons: "a = [] \<or> consistent (final r) a = Inr True"
    and keys: "distinct (map fst a)" by simp_all
  from backtrack_keys [OF b] cw have sub: "fst ` set a \<subseteq> set (variables (crossword self))"
    by simp
  have c: "consistent (final r) a = Inr True"
  proof (cases "a = []")
    case True
    then show ?thesis by (simp add: consistent_def)
  next
    case False
    with cons show ?thesis by simp
  qed
  note ct = consistent_True [OF c]
  have 1: "\<forall>v\<in>set (variables (crossword self)). \<exists>w. map_of a v = Some w"
    using complete by (auto simp: assignment_complete_def cw list_all_iff)
  have 2: "set (map fst a) = set (variables (crossword self))"
  proof
    show "set (map fst a) \<subseteq> set (variables (crossword self))" using sub by simp
    show "set (variables (crossword self)) \<subseteq> set (map fst a)"
    proof
      fix v assume "v \<in> set (variables (crossword self))"
      with 1 obtain w where "map_of a v = Some w" by blast
      then have "(v, w) \<in> set a" by (rule map_of_SomeD)
      then show "v \<in> set (map fst a)" by force
    qed
  qed
  have 4: "\<forall>v v' w. map_of a v = Some w \<and> map_of a v' = Some w \<longrightarrow> v = v'"
  proof (intro allI impI)
    fix v v' w assume "map_of a v = Some w \<and> map_of a v' = Some w"
    then have "(v, w) \<in> set a" "(v', w) \<in> set a" by (auto dest: map_of_SomeD)
    with ct(1) show "v = v'"
      by (metis distinct_map inj_on_def snd_conv prod.inject)
  qed
  have 5: "\<forall>v w. map_of a v = Some w \<longrightarrow> length w = var_length v"
    using ct(2) by (auto dest: map_of_SomeD)
  have 6: "\<exists>p q. overlaps (crossword self) (v, n) = Some (Some (p, q)) \<and>
               p < length w \<and> q < length nw \<and> w ! p = nw ! q"
    if h: "map_of a v = Some w" "map_of a n = Some nw" "v \<noteq> n"
      "overlaps (crossword self) (n, v) = Some (Some pq)" for v w n nw pq
  proof -
    from h(1) have vw: "(v, w) \<in> set a" by (rule map_of_SomeD)
    from h(2) have "(n, nw) \<in> set a" by (rule map_of_SomeD)
    then have "n \<in> fst ` set a" by force
    with sub have nv: "n \<in> set (variables (crossword self))" by blast
    from c vw obtain ns where ns: "neighbors (crossword (final r)) v = Inr ns"
      using consistent_items_True [of "crossword (final r)" a a v w]
      by (auto simp: consistent_def split: if_splits)
    from neighbors_set [OF ns] nv h(3,4) cw have "n \<in> set ns" by auto
    from ct(3) [OF vw ns this h(2)] cw show ?thesis by simp
  qed
  have 7: "w ! i = nw ! j"
    if init: "Crossword_init contents word_lines choice = Inr (crossword self)"
      and h: "map_of a v = Some w" "map_of a n = Some nw"
      and ij: "i < length w" "j < length nw" "cells v ! i = cells n ! j"
    for contents word_lines choice v w n nw i j
  proof (cases "v = n")
    case True
    with h have wn: "nw = w" by simp
    from h(1) have "(v, w) \<in> set a" by (rule map_of_SomeD)
    then have "v \<in> fst ` set a" by force
    with sub have vv: "v \<in> set (variables (crossword self))" by blast
    from 5 h(1) have len: "length w = var_length v" by blast
    from scanned_distinct_cells [OF init vv] ij True wn len have "i = j"
      by (simp add: nth_eq_iff_index_eq length_cells)
    with wn show ?thesis by simp
  next
    case False
    from h(1) have "(v, w) \<in> set a" by (rule map_of_SomeD)
    then have "v \<in> fst ` set a" by force
    with sub have vv: "v \<in> set (variables (crossword self))" by blast
    from h(2) have "(n, nw) \<in> set a" by (rule map_of_SomeD)
    then have "n \<in> fst ` set a" by force
    with sub have nv: "n \<in> set (variables (crossword self))" by blast
    from 5 h have len: "length w = var_length v" "length nw = var_length n" by blast+
    from ij len have ij': "i < var_length v" "j < var_length n" by simp_all
    from Crossword_init_overlap_cell [OF init vv nv False ij' ij(3)]
    have vn: "overlaps (crossword self) (v, n) = Some (Some (i, j))" .
    from False have ne: "n \<noteq> v" by simp
    from Crossword_init_overlap_cell [OF init nv vv ne ij'(2,1) ij(3) [symmetric]]
    have nv': "overlaps (crossword self) (n, v) = Some (Some (j, i))" .
    from 6 [OF h False nv'] vn show ?thesis by simp
  qed
  have ov: "\<forall>v w n nw pq. map_of a v = Some w \<and> map_of a n = Some nw \<and> v \<noteq> n \<and>
              overlaps (crossword self) (n, v) = Some (Some pq) \<longrightarrow>
            (\<exists>p q. overlaps (crossword self) (v, n) = Some (Some (p, q)) \<and>
               p < length w \<and> q < length nw \<and> w ! p = nw ! q)"
  proof (intro allI impI, elim conjE)
    fix v w n nw pq
    assume "map_of a v = Some w" "map_of a n = Some nw" "v \<noteq> n"
      "overlaps (crossword self) (n, v) = Some (Some pq)"
    then show "\<exists>p q. overlaps (crossword self) (v, n) = Some (Some (p, q)) \<and>
               p < length w \<and> q < length nw \<and> w ! p = nw ! q"
      by (rule 6)
  qed
  have grid: "\<forall>contents word_lines choice v w n nw i j.
            Crossword_init contents word_lines choice = Inr (crossword self) \<and>
            map_of a v = Some w \<and> map_of a n = Some nw \<and>
            i < length w \<and> j < length nw \<and> cells v ! i = cells n ! j \<longrightarrow> w ! i = nw ! j"
  proof (intro allI impI, elim conjE)
    fix contents word_lines choice v w n nw i j
    assume "Crossword_init contents word_lines choice = Inr (crossword self)"
      "map_of a v = Some w" "map_of a n = Some nw"
      "i < length w" "j < length nw" "cells v ! i = cells n ! j"
    then show "w ! i = nw ! j" by (rule 7)
  qed
  from 1 2 keys ct(1) 4 5 ov grid show ?thesis by (intro conjI)
qed

text \<open>A vocabulary for the small puzzle, and its solution.\<close>

definition small_vocabulary :: "string list" where
  "small_vocabulary = [''AB'', ''XYZ'', ''BC'']"

theorem solve_returns_consistent_witness:
  "\<exists>r. solve (CrosswordCreator_init (small_crossword small_vocabulary)) = Inr r \<and>
     result r = Some [(slot_down, ''AB''), (slot_across, ''BC'')] \<and>
     Crossword_init [''_#'', ''__''] small_vocabulary pop_first =
       Inr (crossword (CrosswordCreator_init (small_crossword small_vocabulary))) \<and>
     overlaps (small_crossword small_vocabulary) (slot_across, slot_down) = Some (Some (0, 1)) \<and>
     overlaps (small_crossword small_vocabulary) (slot_down, slot_across) = Some (Some (1, 0)) \<and>
     cells slot_down ! 1 = cells slot_across ! 0 \<and>
     ''AB'' ! 1 = ''BC'' ! 0"
proof -
  let ?self = "CrosswordCreator_init (small_crossword small_vocabulary)"
  let ?a = "[(slot_down, ''AB''), (slot_across, ''BC'')]"
  have "\<not> isl (solve ?self)" by code_simp
  then obtain r where r: "solve ?self = Inr r" by (cases "solve ?self") auto
  have "result (projr (solve ?self)) = Some ?a"
    by code_simp
  with r have a: "result r = Some ?a" by simp
  have cw: "crossword ?self = small_crossword small_vocabulary"
    by (simp add: CrosswordCreator_init_def)
  have "distinct small_vocabulary" by (simp add: small_vocabulary_def)
  from small_crossword_init [OF this] cw
  have init: "Crossword_init [''_#'', ''__''] small_vocabulary pop_first = Inr (crossword ?self)"
    by simp
  have o1: "overlaps (small_crossword small_vocabulary) (slot_across, slot_down) = Some (Some (0, 1))"
    by (simp add: small_crossword_def)
  have o2: "overlaps (small_crossword small_vocabulary) (slot_down, slot_across) = Some (Some (1, 0))"
    by (simp add: small_crossword_def)
  have c: "cells slot_down ! 1 = cells slot_across ! 0"
    by (simp add: cells_def slot_down_def slot_across_def ACROSS_def DOWN_def upt_conv_Cons)
  note th = solve_returns_consistent [OF r a]
  from th have ov: "\<forall>v w n nw pq. map_of ?a v = Some w \<and> map_of ?a n = Some nw \<and> v \<noteq> n \<and>
              overlaps (crossword ?self) (n, v) = Some (Some pq) \<longrightarrow>
            (\<exists>p q. overlaps (crossword ?self) (v, n) = Some (Some (p, q)) \<and>
               p < length w \<and> q < length nw \<and> w ! p = nw ! q)"
    by (elim conjE)
  have "map_of ?a slot_down = Some ''AB'' \<and> map_of ?a slot_across = Some ''BC'' \<and>
      slot_down \<noteq> slot_across \<and>
      overlaps (crossword ?self) (slot_across, slot_down) = Some (Some (0, 1))"
    using o1 cw by simp
  from ov [rule_format, OF this] o2 cw have e1: "''AB'' ! 1 = ''BC'' ! (0::nat)"
    by simp
  from th have grid: "\<forall>contents word_lines choice v w n nw i j.
            Crossword_init contents word_lines choice = Inr (crossword ?self) \<and>
            map_of ?a v = Some w \<and> map_of ?a n = Some nw \<and>
            i < length w \<and> j < length nw \<and> cells v ! i = cells n ! j \<longrightarrow> w ! i = nw ! j"
    by (elim conjE)
  have "Crossword_init [''_#'', ''__''] small_vocabulary pop_first = Inr (crossword ?self) \<and>
      map_of ?a slot_down = Some ''AB'' \<and> map_of ?a slot_across = Some ''BC'' \<and>
      1 < length ''AB'' \<and> 0 < length ''BC'' \<and> cells slot_down ! 1 = cells slot_across ! 0"
    using init c by simp
  from grid [rule_format, OF this] have e: "''AB'' ! 1 = ''BC'' ! (0::nat)" .
  show ?thesis
    by (rule exI [of _ r]) (intro conjI r a init o1 o2 c e)
qed

section \<open>AC-3 as a worklist machine\<close>








section \<open>An empty domain stops the search at once\<close>





















section \<open>No exception on a built crossword\<close>








subsection \<open>neighbors\<close>








subsection \<open>revise and ac3\<close>




subsection \<open>consistent\<close>




subsection \<open>order_domain_values\<close>






subsection \<open>select_unassigned_variable\<close>



subsection \<open>backtrack and solve\<close>






section \<open>Control flow of \<open>solve\<close>\<close>





section \<open>The search over a store of dicts\<close>

text \<open>
  \<open>backtrack\<close> receives a reference to a dict, and \<open>assignment.copy()\<close> followed by
  \<open>new_assignment[var] = value\<close> writes into a dict. To tell the caller's dict from the
  copies, the dicts live in a store: a list of dicts, an address being an index, and
  \<open>copy\<close> allocating at the end. The state of the search is the object \<open>self\<close> and the
  store; every method call of \<open>backtrack\<close> is given the state and the model returns the
  state it leaves. \<open>assignment_complete\<close>, \<open>select_unassigned_variable\<close>,
  \<open>order_domain_values\<close> and \<open>consistent\<close> only read \<open>self\<close> and the dict they are given.

  A Python reference always holds an object. \<open>Dangling\<close> is the answer of the model to an
  address outside the store; \<open>Raise\<close> is an exception of the source and \<open>Return\<close> a
  returned value, \<open>None\<close> or the address of the dict that is returned.
\<close>

type_synonym store = "assignment list"

record search_state =
  this :: CrosswordCreator
  dicts :: store

datatype 'a outcome = Dangling | Raise (raised: error) | Return (returned: 'a)

definition deref :: "store \<Rightarrow> nat \<Rightarrow> assignment option" where
  "deref st p = (if p < length st then Some (st ! p) else None)"

definition dict_copy :: "store \<Rightarrow> nat \<Rightarrow> (nat \<times> store) option" where
  "dict_copy st p = (case deref st p of None \<Rightarrow> None | Some a \<Rightarrow> Some (length st, st @ [a]))"

definition dict_set :: "store \<Rightarrow> nat \<Rightarrow> Variable \<Rightarrow> string \<Rightarrow> store option" where
  "dict_set st q k v =
     (case deref st q of None \<Rightarrow> None | Some a \<Rightarrow> Some (st[q := AList.update k v a]))"

text \<open>
  \<open>backtrack\<close>, and its \<open>for\<close> loop over the ordered values as a second function. The
  loop goes on in the state that the recursive call left.
\<close>

function (domintros)
  backtrack_store :: "search_state \<Rightarrow> nat \<Rightarrow> (nat option \<times> search_state) outcome" and
  backtrack_store_values ::
    "search_state \<Rightarrow> nat \<Rightarrow> Variable \<Rightarrow> string list \<Rightarrow> (nat option \<times> search_state) outcome"
where
  "backtrack_store s assignment =
     (case deref (dicts s) assignment of
        None \<Rightarrow> Dangling
      | Some a \<Rightarrow>
          if assignment_complete (this s) a then Return (Some assignment, s)
          else
            (case select_unassigned_variable (this s) a of
               Inl e \<Rightarrow> Raise e
             | Inr var \<Rightarrow>
                 (case order_domain_values (this s) var a of
                    Inl e \<Rightarrow> Raise e
                  | Inr vals \<Rightarrow> backtrack_store_values s assignment var vals)))"
| "backtrack_store_values s assignment var [] = Return (None, s)"
| "backtrack_store_values s assignment var (val # rest) =
     (case dict_copy (dicts s) assignment of
        None \<Rightarrow> Dangling
      | Some (new_assignment, st1) \<Rightarrow>
          (case dict_set st1 new_assignment var val of
             None \<Rightarrow> Dangling
           | Some st2 \<Rightarrow>
               (case deref st2 new_assignment of
                  None \<Rightarrow> Dangling
                | Some new \<Rightarrow>
                    (case consistent (this s) new of
                       Inl e \<Rightarrow> Raise e
                     | Inr ok \<Rightarrow>
                         if ok then
                           (case backtrack_store (s\<lparr>dicts := st2\<rparr>) new_assignment of
                              Dangling \<Rightarrow> Dangling
                            | Raise e \<Rightarrow> Raise e
                            | Return (Some r, s') \<Rightarrow> Return (Some r, s')
                            | Return (None, s') \<Rightarrow> backtrack_store_values s' assignment var rest)
                         else backtrack_store_values (s\<lparr>dicts := st2\<rparr>) assignment var rest))))"
  by pat_completeness auto


text \<open>
  A later state extends an earlier one when the object is the same, and every dict of
  the earlier store is at its address, unchanged, in the later one.
\<close>

definition store_extends :: "search_state \<Rightarrow> search_state \<Rightarrow> bool" where
  "store_extends s s' \<longleftrightarrow>
     this s' = this s \<and> length (dicts s) \<le> length (dicts s') \<and>
     (\<forall>i<length (dicts s). dicts s' ! i = dicts s ! i)"

text \<open>
  Termination: a call of \<open>backtrack\<close> counts the slots its dict leaves unassigned, a run
  of the loop those left once \<open>var\<close> is assigned, and then the values still to try. That
  the loop's dict is the same after the recursive call is the frame property, proved
  first on the domain of the function.
\<close>

fun search_measure ::
  "search_state \<times> nat + search_state \<times> nat \<times> Variable \<times> string list \<Rightarrow> nat" where
  "search_measure (Inl (s, p)) =
     (case deref (dicts s) p of None \<Rightarrow> 0 | Some a \<Rightarrow> 2 * unassigned_count (this s) a)"
| "search_measure (Inr (s, p, var, vals)) =
     (case deref (dicts s) p of
        None \<Rightarrow> 0
      | Some a \<Rightarrow> 2 * unassigned_count (this s) (AList.update var [] a) + 1)"

fun values_left ::
  "search_state \<times> nat + search_state \<times> nat \<times> Variable \<times> string list \<Rightarrow> nat" where
  "values_left (Inl (s, p)) = 0"
| "values_left (Inr (s, p, var, vals)) = length vals"

lemma store_extends_refl: "store_extends s s"
  by (simp add: store_extends_def)

lemma store_extends_trans:
  "store_extends s1 s2 \<Longrightarrow> store_extends s2 s3 \<Longrightarrow> store_extends s1 s3"
  by (auto simp: store_extends_def)

lemma copy_set:
  assumes "dict_copy st p = Some (q, st1)" and "dict_set st1 q var val = Some st2"
  shows "p < length st \<and> q = length st \<and> st2 = st @ [AList.update var val (st ! p)]"
proof -
  from assms(1) have p: "p < length st" and q: "q = length st" and st1: "st1 = st @ [st ! p]"
    by (auto simp: dict_copy_def deref_def split: if_splits)
  from assms(2) q st1 have "st2 = (st @ [st ! p])[length st := AList.update var val (st ! p)]"
    by (auto simp: dict_set_def deref_def split: if_splits)
  with p q show ?thesis by simp
qed


lemma store_extends_append: "store_extends s (s\<lparr>dicts := dicts s @ [a]\<rparr>)"
  by (simp add: store_extends_def nth_append)

lemma unassigned_count_update_indep:
  "unassigned_count self (AList.update var v a) = unassigned_count self (AList.update var v' a)"
  by (simp add: unassigned_count_def AList.update_conv')

lemma frame_partial:
  "backtrack_store_backtrack_store_values_dom (Inl (s, p)) \<Longrightarrow>
     backtrack_store s p = Return (r, s') \<Longrightarrow> store_extends s s'"
  "backtrack_store_backtrack_store_values_dom (Inr (s, p, var, vals)) \<Longrightarrow>
     backtrack_store_values s p var vals = Return (r, s') \<Longrightarrow> store_extends s s'"
proof (induct s p and s p var vals arbitrary: r s' and r s'
    rule: backtrack_store_backtrack_store_values.pinduct)
  case (1 s assignment)
  from "1.prems" "1.hyps"(1) have eq: "(case deref (dicts s) assignment of
        None \<Rightarrow> Dangling
      | Some a \<Rightarrow>
          if assignment_complete (this s) a then Return (Some assignment, s)
          else
            (case select_unassigned_variable (this s) a of
               Inl e \<Rightarrow> Raise e
             | Inr var \<Rightarrow>
                 (case order_domain_values (this s) var a of
                    Inl e \<Rightarrow> Raise e
                  | Inr vals \<Rightarrow> backtrack_store_values s assignment var vals))) =
      Return (r, s')"
    by (simp add: backtrack_store.psimps)
  then obtain a where a: "deref (dicts s) assignment = Some a"
    by (auto split: option.splits)
  show ?case
  proof (cases "assignment_complete (this s) a")
    case True
    with eq a show ?thesis by (simp add: store_extends_refl)
  next
    case False
    with eq a obtain var vals where var: "select_unassigned_variable (this s) a = Inr var"
      and vals: "order_domain_values (this s) var a = Inr vals"
      and v: "backtrack_store_values s assignment var vals = Return (r, s')"
      by (auto split: sum.splits)
    from "1.hyps"(2) [OF a False var vals v] show ?thesis .
  qed
next
  case (2 s assignment var)
  then show ?case by (simp add: backtrack_store_values.psimps store_extends_refl)
next
  case (3 s assignment var val rest)
  from "3.prems" "3.hyps"(1) have eq: "(case dict_copy (dicts s) assignment of
        None \<Rightarrow> Dangling
      | Some (new_assignment, st1) \<Rightarrow>
          (case dict_set st1 new_assignment var val of
             None \<Rightarrow> Dangling
           | Some st2 \<Rightarrow>
               (case deref st2 new_assignment of
                  None \<Rightarrow> Dangling
                | Some new \<Rightarrow>
                    (case consistent (this s) new of
                       Inl e \<Rightarrow> Raise e
                     | Inr ok \<Rightarrow>
                         if ok then
                           (case backtrack_store (s\<lparr>dicts := st2\<rparr>) new_assignment of
                              Dangling \<Rightarrow> Dangling
                            | Raise e \<Rightarrow> Raise e
                            | Return (Some r, s') \<Rightarrow> Return (Some r, s')
                            | Return (None, s') \<Rightarrow> backtrack_store_values s' assignment var rest)
                         else backtrack_store_values (s\<lparr>dicts := st2\<rparr>) assignment var rest)))) =
      Return (r, s')"
    by (simp add: backtrack_store_values.psimps)
  then obtain q st1 st2 new ok where c: "dict_copy (dicts s) assignment = Some (q, st1)"
    and st2: "dict_set st1 q var val = Some st2" and new: "deref st2 q = Some new"
    and ok: "consistent (this s) new = Inr ok"
    by (auto split: sum.splits option.splits prod.splits)
  from copy_set [OF c st2] have st2_eq: "st2 = dicts s @ [AList.update var val (dicts s ! assignment)]"
    by simp
  have ext: "store_extends s (s\<lparr>dicts := st2\<rparr>)"
    unfolding st2_eq by (rule store_extends_append)
  show ?case
  proof (cases ok)
    case False
    with eq c st2 new ok
    have "backtrack_store_values (s\<lparr>dicts := st2\<rparr>) assignment var rest = Return (r, s')"
      by simp
    from "3.hyps"(4) [OF c refl st2 new ok False this] ext show ?thesis
      by (rule store_extends_trans [rotated])
  next
    case True
    with eq c st2 new ok obtain r1 s1 where
      b: "backtrack_store (s\<lparr>dicts := st2\<rparr>) q = Return (r1, s1)"
      by (auto split: outcome.splits prod.splits)
    from "3.hyps"(2) [OF c refl st2 new ok True b] have e1: "store_extends (s\<lparr>dicts := st2\<rparr>) s1" .
    show ?thesis
    proof (cases r1)
      case (Some res)
      with eq c st2 new ok True b have "s' = s1" by simp
      with ext e1 show ?thesis by (auto intro: store_extends_trans)
    next
      case None
      with eq c st2 new ok True b
      have v: "backtrack_store_values s1 assignment var rest = Return (r, s')" by simp
      from b None have b': "backtrack_store (s\<lparr>dicts := st2\<rparr>) q = Return (None, s1)" by simp
      from "3.hyps"(3) [OF c refl st2 new ok True b' refl refl v]
      have "store_extends s1 s'" .
      with ext e1 show ?thesis by (auto intro: store_extends_trans)
    qed
  qed
qed

termination backtrack_store
proof (relation "measures [search_measure, values_left]")
  show "wf (measures [search_measure, values_left])" by simp
next
  fix s :: search_state and assignment b ba bb
  assume a: "deref (dicts s) assignment = Some b"
    and "\<not> assignment_complete (this s) b"
    and var: "select_unassigned_variable (this s) b = Inr ba"
  from select_unassigned_variable_in [OF var]
  have "unassigned_count (this s) (AList.update ba [] b) < unassigned_count (this s) b"
    by (intro unassigned_count_update) simp_all
  with a show "(Inr (s, assignment, ba, bb), Inl (s, assignment))
      \<in> measures [search_measure, values_left]"
    by simp
next
  fix s :: search_state and assignment var val rest b x y ba bb bc
  assume c: "dict_copy (dicts s) assignment = Some b" "(x, y) = b"
    and st: "dict_set y x var val = Some ba"
  from c have c': "dict_copy (dicts s) assignment = Some (x, y)" by simp
  note cs = copy_set [OF c' st]
  from cs have 1: "deref (dicts s) assignment = Some (dicts s ! assignment)"
    by (simp add: deref_def)
  from cs have 2: "deref ba x = Some (AList.update var val (dicts s ! assignment))"
    by (simp add: deref_def)
  from 1 2 unassigned_count_update_indep [of "this s" var val "dicts s ! assignment" "[]"]
  show "(Inl (s\<lparr>dicts := ba\<rparr>, x), Inr (s, assignment, var, val # rest))
      \<in> measures [search_measure, values_left]"
    by simp
next
  fix s :: search_state and assignment var val rest b x y ba bb bc bd xa ya
  assume c: "dict_copy (dicts s) assignment = Some b" "(x, y) = b"
    and st: "dict_set y x var val = Some ba"
    and bt: "backtrack_store (s\<lparr>dicts := ba\<rparr>) x = Return bd" "(xa, ya) = bd"
    and dom: "backtrack_store_backtrack_store_values_dom (Inl (s\<lparr>dicts := ba\<rparr>, x))"
  from c have c': "dict_copy (dicts s) assignment = Some (x, y)" by simp
  note cs = copy_set [OF c' st]
  from bt have "backtrack_store (s\<lparr>dicts := ba\<rparr>) x = Return (xa, ya)" by simp
  from frame_partial(1) [OF dom this] have e: "store_extends (s\<lparr>dicts := ba\<rparr>) ya" .
  from cs have p: "assignment < length (dicts s)" and len: "assignment < length ba"
    and same: "ba ! assignment = dicts s ! assignment"
    by (simp_all add: nth_append)
  from e len same have "this ya = this s" "assignment < length (dicts ya)"
    "dicts ya ! assignment = dicts s ! assignment"
    by (auto simp: store_extends_def)
  with p show "(Inr (ya, assignment, var, rest), Inr (s, assignment, var, val # rest))
      \<in> measures [search_measure, values_left]"
    by (simp add: deref_def)
next
  fix s :: search_state and assignment var val rest b x y ba bb bc
  assume c: "dict_copy (dicts s) assignment = Some b" "(x, y) = b"
    and st: "dict_set y x var val = Some ba"
  from c have c': "dict_copy (dicts s) assignment = Some (x, y)" by simp
  note cs = copy_set [OF c' st]
  from cs have "assignment < length (dicts s)" "assignment < length ba"
    "ba ! assignment = dicts s ! assignment"
    by (simp_all add: nth_append)
  then show "(Inr (s\<lparr>dicts := ba\<rparr>, assignment, var, rest), Inr (s, assignment, var, val # rest))
      \<in> measures [search_measure, values_left]"
    by (simp add: deref_def)
qed

declare backtrack_store.simps [simp del] backtrack_store_values.simps(2) [simp del]

lemma backtrack_store_dom:
  "backtrack_store_backtrack_store_values_dom (Inl (s, p))"
  "backtrack_store_backtrack_store_values_dom (Inr (s, p, var, vals))"
proof (induct s p and s p var vals rule: backtrack_store_backtrack_store_values.induct)
  case (1 s assignment)
  then show ?case by (auto intro: backtrack_store_backtrack_store_values.domintros(1))
next
  case (2 s assignment var)
  show ?case by (rule backtrack_store_backtrack_store_values.domintros(2))
next
  case (3 s assignment var val rest)
  show ?case
    apply (rule backtrack_store_backtrack_store_values.domintros(3))
    using 3 apply auto
    done
qed


lemma backtrack_store_values_extends:
  "backtrack_store_values s p var vals = Return (r, s') \<Longrightarrow> store_extends s s'"
  using frame_partial(2) backtrack_store_dom(2) by blast


subsection \<open>The store model and the value model agree\<close>






subsection \<open>The search leaves the domains and the caller's dict as they were\<close>





end
